theory Spec2Isabelle
  imports
    Complex_Main
    "HOL-Library.Word"
    "HOL-Library.AList"
    "HOL-Library.Char_ord"
    "HOL-Library.List_Lexorder"
    "HOL-Library.Product_Lexorder"
    "HOL-Library.Multiset"
begin

unbundle bit_operations_syntax

section \<open>Numbers, strings and objects of the host language\<close>

text \<open>
  The engine is TypeScript. Its numbers are modelled as follows.
  \<^item> Counts and indices (\<open>nodeCount\<close>, \<open>recursionDepth\<close>, \<open>beamWidth\<close>, \<open>seed\<close>,
    \<open>step\<close>) are \<open>nat\<close>.
  \<^item> The 32-bit integer operations of the generator and of the hash (\<open>Math.imul\<close>,
    \<open>^\<close>, \<open>|\<close>, \<open>>>>\<close>) are operations on \<open>32 word\<close>.
  \<^item> Every other number is a \<open>real\<close>: the arithmetic of the scores, weights and
    context values is the exact one, and \<open>Math.exp\<close>, \<open>Math.sin\<close>, \<open>Math.sqrt\<close> are
    \<open>exp\<close>, \<open>sin\<close>, \<open>sqrt\<close>. Rounding errors of IEEE doubles are outside the model.
  \<^item> A string is a \<open>char list\<close>; every string the engine builds is ASCII, so a
    character is its UTF-16 code unit. The default \<open>sort()\<close> of an array of strings
    and \<open>localeCompare\<close> are the lexicographic order of the code units (on the
    identifiers of the engine, an \<open>n\<close> and decimal digits, they agree).
  \<^item> An object used as a mapping (\<open>Record<string, number>\<close>, \<open>Map\<close>) is an
    association list in insertion order; \<open>obj[key] = v\<close> and \<open>Map.set\<close> are
    \<open>AList.update\<close>, which overwrites in place or appends.
\<close>

definition Math_round :: "real \<Rightarrow> real" where
  "Math_round x = of_int \<lfloor>x + 1 / 2\<rfloor>"

text \<open>The idiom \<open>Math.round(x * 1000) / 1000\<close>, written out at every use in the source.\<close>

definition round3 :: "real \<Rightarrow> real" where
  "round3 x = Math_round (x * 1000) / 1000"

text \<open>\<open>Number(x.toFixed(3))\<close>: the sign is set aside, ties go to the larger magnitude.\<close>

definition toFixed3 :: "real \<Rightarrow> real" where
  "toFixed3 x =
     (if x < 0 then - (of_int \<lfloor>(- x) * 1000 + 1 / 2\<rfloor> / 1000)
      else of_int \<lfloor>x * 1000 + 1 / 2\<rfloor> / 1000)"

definition clamp01 :: "real \<Rightarrow> real" where
  "clamp01 v = min 1 (max 0 v)"

definition sigmoid :: "real \<Rightarrow> real" where
  "sigmoid x = 1 / (1 + exp (- x))"

definition Math_imul :: "32 word \<Rightarrow> 32 word \<Rightarrow> 32 word" where
  "Math_imul a b = a * b"

text \<open>\<open>obj[key] ?? 0\<close> and \<open>map.get(key) ?? 0\<close>.\<close>

definition getOr0 :: "(string \<times> real) list \<Rightarrow> string \<Rightarrow> real" where
  "getOr0 obj key = (case map_of obj key of Some v \<Rightarrow> v | None \<Rightarrow> 0)"

text \<open>\<open>obj[key] >= t\<close>: a missing key reads \<open>undefined\<close>, and the comparison is false.\<close>

definition geqProp :: "(string \<times> real) list \<Rightarrow> string \<Rightarrow> real \<Rightarrow> bool" where
  "geqProp obj key t = (case map_of obj key of Some v \<Rightarrow> t \<le> v | None \<Rightarrow> False)"

definition Object_keys :: "(string \<times> 'a) list \<Rightarrow> string list" where
  "Object_keys obj = map fst obj"

fun join :: "string \<Rightarrow> string list \<Rightarrow> string" where
  "join sep [] = []"
| "join sep [x] = x"
| "join sep (x # y # ys) = x @ sep @ join sep (y # ys)"

definition padStart :: "nat \<Rightarrow> char \<Rightarrow> string \<Rightarrow> string" where
  "padStart n c s = replicate (n - length s) c @ s"

definition digitChar :: "nat \<Rightarrow> char" where
  "digitChar d = ''0123456789abcdef'' ! d"

text \<open>\<open>n.toString(radix)\<close> for a non-negative integer and a radix from 2 to 16.\<close>

function toStringRadix :: "nat \<Rightarrow> nat \<Rightarrow> string" where
  "toStringRadix radix n =
     (if n < radix \<or> radix < 2 then [digitChar n]
      else toStringRadix radix (n div radix) @ [digitChar (n mod radix)])"
  by pat_completeness auto
termination
  by (relation "measure snd") auto

declare toStringRadix.simps [simp del]

section \<open>rng.ts\<close>

text \<open>
  The state of \<open>createRng\<close> is the closure variable \<open>state\<close>. It starts at
  \<open>seed >>> 0\<close> and grows by \<open>0x6d2b79f5\<close> at every draw without being wrapped; the
  bit operations read it modulo \<open>2 ^ 32\<close>. A draw returns the new state and the value.
\<close>

definition createRng :: "nat \<Rightarrow> nat" where
  "createRng seed = seed mod 2 ^ 32"

definition rng_next :: "nat \<Rightarrow> nat \<times> real" where
  "rng_next state =
     (let state1 = state + 0x6d2b79f5;
          t0 = (word_of_nat state1 :: 32 word);
          t1 = Math_imul (t0 XOR drop_bit 15 t0) (t0 OR 1);
          t2 = t1 XOR (t1 + Math_imul (t1 XOR drop_bit 7 t1) (t1 OR 61))
      in (state1, real (unat (t2 XOR drop_bit 14 t2)) / 4294967296))"

section \<open>types.ts\<close>

record Node =
  idN :: string
  priorN :: bool
  novelty :: bool

record Edge =
  idE :: string
  source :: string
  target :: string
  weight :: real
  priorE :: bool

record Graph =
  nodes :: "Node list"
  edges :: "Edge list"

type_synonym ContextVector = "(string \<times> real) list"

record PipelineParams =
  nodeCount :: nat
  edgeDensity :: real
  overlapPercent :: real
  seed :: nat
  recursionDepth :: nat
  rigidity :: real
  beamWidth :: nat
  activationThreshold :: real
  contextBlend :: real
  weightLearningRate :: real
  driftBias :: real

record BeamCandidate =
  nodePath :: "string list"
  edgePath :: "string list"
  score :: real

record InterpretationSummary =
  topNodes :: "(string \<times> real) list"
  topEdges :: "(string \<times> real) list"
  centroid :: "(string \<times> real) list"

record StepRunLog =
  step :: nat
  seedS :: nat
  paramsS :: PipelineParams
  activeSet :: "string list"
  prunedNodes :: "string list"
  prunedEdges :: "string list"
  beamCandidates :: "BeamCandidate list"
  interpretationS :: InterpretationSummary
  activationVector :: "(string \<times> real) list"
  edgeWeights :: "(string \<times> real) list"
  delta :: real

record RunLog =
  model :: string
  createdAt :: string
  paramsR :: PipelineParams
  steps :: "StepRunLog list"

record SimulationOutput =
  graph :: Graph
  contextOut :: ContextVector
  runlog :: RunLog

section \<open>generator.ts\<close>

definition makeNodeId :: "nat \<Rightarrow> string" where
  "makeNodeId index = ''n'' @ padStart 3 (CHR ''0'') (toStringRadix 10 index)"

definition overlapCount :: "PipelineParams \<Rightarrow> int" where
  "overlapCount p = max 1 \<lfloor>real (nodeCount p) * overlapPercent p\<rfloor>"

definition priorCount :: "PipelineParams \<Rightarrow> int" where
  "priorCount p = max (overlapCount p + 1) \<lfloor>real (nodeCount p) * 0.6\<rfloor>"

definition genNode :: "PipelineParams \<Rightarrow> nat \<Rightarrow> Node" where
  "genNode p i =
     \<lparr>idN = makeNodeId i,
      priorN = (int i < priorCount p),
      novelty = (priorCount p - overlapCount p \<le> int i)\<rparr>"

definition genNodes :: "PipelineParams \<Rightarrow> Node list" where
  "genNodes p = map (genNode p) [0..<nodeCount p]"

text \<open>The body of the inner loop over \<open>j\<close>: one draw decides the edge, a second one its weight.\<close>

definition genEdgeStep :: "real \<Rightarrow> Node list \<Rightarrow> nat \<Rightarrow> nat \<Rightarrow> nat \<times> Edge list \<Rightarrow> nat \<times> Edge list" where
  "genEdgeStep density ns i j st =
     (let (rng, es) = st;
          (rng1, r) = rng_next rng
      in if r \<le> density then
           (let src = idN (ns ! i);
                tgt = idN (ns ! j);
                (rng2, r2) = rng_next rng1
            in (rng2, es @ [\<lparr>idE = src @ ''->'' @ tgt, source = src, target = tgt,
                              weight = round3 (0.2 + r2 * 0.8),
                              priorE = (priorN (ns ! i) \<and> priorN (ns ! j))\<rparr>]))
         else (rng1, es))"

definition genEdges :: "real \<Rightarrow> Node list \<Rightarrow> nat \<Rightarrow> nat \<times> Edge list" where
  "genEdges density ns rng =
     fold (\<lambda>i st. fold (\<lambda>j. genEdgeStep density ns i j) [i + 1..<length ns] st)
       [0..<length ns] (rng, [])"

definition genContextStep :: "Node \<Rightarrow> nat \<times> ContextVector \<Rightarrow> nat \<times> ContextVector" where
  "genContextStep node st =
     (let (rng, ctx) = st;
          base = (if priorN node then 0.45 else 0.35);
          noveltyLift = (if novelty node then 0.2 else 0);
          (rng1, r) = rng_next rng
      in (rng1, AList.update (idN node) (round3 (base + noveltyLift + r * 0.25)) ctx))"

definition generateGraph :: "nat \<Rightarrow> PipelineParams \<Rightarrow> Graph \<times> ContextVector" where
  "generateGraph sd p =
     (let rng = createRng sd;
          ns = genNodes p;
          (rng1, es) = genEdges (edgeDensity p) ns rng;
          (rng2, ctx) = fold genContextStep ns (rng1, [])
      in (\<lparr>nodes = ns, edges = es\<rparr>, ctx))"

section \<open>The engine: activation, pruning, reconstruction, interpretation, drift\<close>

subsection \<open>makeAdjacency and activationScores\<close>

definition ensureAdj :: "string \<Rightarrow> (string \<rightharpoonup> Edge list) \<Rightarrow> (string \<rightharpoonup> Edge list)" where
  "ensureAdj key adjacency = (if adjacency key = None then adjacency(key \<mapsto> []) else adjacency)"

definition pushAdj :: "string \<Rightarrow> Edge \<Rightarrow> (string \<rightharpoonup> Edge list) \<Rightarrow> (string \<rightharpoonup> Edge list)" where
  "pushAdj key edge adjacency =
     (case adjacency key of Some es \<Rightarrow> adjacency(key \<mapsto> es @ [edge]) | None \<Rightarrow> adjacency)"

definition makeAdjacency :: "Edge list \<Rightarrow> (string \<rightharpoonup> Edge list)" where
  "makeAdjacency es =
     fold (\<lambda>edge adjacency.
             pushAdj (target edge) edge
               (pushAdj (source edge) edge
                 (ensureAdj (target edge) (ensureAdj (source edge) adjacency))))
       es Map.empty"

text \<open>\<open>adjacency.get(key) ?? []\<close>.\<close>

definition getAdj :: "(string \<rightharpoonup> Edge list) \<Rightarrow> string \<Rightarrow> Edge list" where
  "getAdj adjacency key = (case adjacency key of Some es \<Rightarrow> es | None \<Rightarrow> [])"

definition nodeScore :: "(string \<rightharpoonup> Edge list) \<Rightarrow> ContextVector \<Rightarrow> PipelineParams \<Rightarrow> Node \<Rightarrow> real" where
  "nodeScore adjacency ctx p node =
     (let incident = getAdj adjacency (idN node);
          degreeScore =
            (if length incident = 0 then 0
             else foldl (\<lambda>sum edge. sum + weight edge) 0 incident / real (length incident));
          contextScore = getOr0 ctx (idN node);
          noveltyBonus = (if novelty node then 0.08 else 0);
          raw = contextBlend p * contextScore + (1 - contextBlend p) * degreeScore + noveltyBonus
      in round3 (sigmoid ((raw - 0.5) * 4)))"

definition activationScores :: "Graph \<Rightarrow> ContextVector \<Rightarrow> PipelineParams \<Rightarrow> (string \<times> real) list" where
  "activationScores g ctx p =
     (let adjacency = makeAdjacency (edges g)
      in fold (\<lambda>node scores. AList.update (idN node) (nodeScore adjacency ctx p node) scores)
           (nodes g) [])"

subsection \<open>applyRigidity\<close>

record RigidResult =
  keptGraph :: Graph
  prunedNodesR :: "string list"
  prunedEdgesR :: "string list"
  activeSetR :: "string list"

definition applyRigidity :: "Graph \<Rightarrow> (string \<times> real) list \<Rightarrow> PipelineParams \<Rightarrow> RigidResult" where
  "applyRigidity g scores p =
     (let activeThreshold = activationThreshold p;
          edgeThreshold = rigidity p;
          active = map idN (filter (\<lambda>node. geqProp scores (idN node) activeThreshold) (nodes g));
          keptNodes = filter (\<lambda>node. geqProp scores (idN node) (activeThreshold * rigidity p)) (nodes g);
          keptNodeSet = set (map idN keptNodes);
          prunedNs = map idN (filter (\<lambda>node. idN node \<notin> keptNodeSet) (nodes g));
          keptEdges = filter (\<lambda>edge. source edge \<in> keptNodeSet \<and> target edge \<in> keptNodeSet \<and>
                                      edgeThreshold \<le> weight edge) (edges g);
          keptEdgeSet = set (map idE keptEdges);
          prunedEs = map idE (filter (\<lambda>edge. idE edge \<notin> keptEdgeSet) (edges g))
      in \<lparr>keptGraph = \<lparr>nodes = keptNodes, edges = keptEdges\<rparr>,
          prunedNodesR = prunedNs, prunedEdgesR = prunedEs, activeSetR = active\<rparr>)"

subsection \<open>beamReconstruct\<close>

definition beamSeeds :: "Graph \<Rightarrow> string list \<Rightarrow> string list" where
  "beamSeeds g active =
     (if length active > 0 then active
      else map idN (take (min 3 (length (nodes g))) (nodes g)))"

definition seedBeams :: "(string \<times> real) list \<Rightarrow> string list \<Rightarrow> BeamCandidate list" where
  "seedBeams scores seeds =
     map (\<lambda>sd. \<lparr>nodePath = [sd], edgePath = [], score = getOr0 scores sd\<rparr>) seeds"

text \<open>
  The expansions one beam pushes, in the order of its adjacency list. The last element of an
  empty path would read \<open>undefined\<close>, which has no adjacency entry.
\<close>

definition expandBeam :: "(string \<rightharpoonup> Edge list) \<Rightarrow> (string \<times> real) list \<Rightarrow> BeamCandidate \<Rightarrow> BeamCandidate list" where
  "expandBeam adjacency scores beam =
     (if nodePath beam = [] then []
      else
        (let tailN = last (nodePath beam);
             neighbors = getAdj adjacency tailN
         in concat (map (\<lambda>edge.
              (let nxt = (if source edge = tailN then target edge else source edge)
               in if nxt \<in> set (nodePath beam) then []
                  else [\<lparr>nodePath = nodePath beam @ [nxt],
                         edgePath = edgePath beam @ [idE edge],
                         score = round3 (score beam + getOr0 scores nxt + weight edge)\<rparr>]))
              neighbors)))"

definition expandAll :: "(string \<rightharpoonup> Edge list) \<Rightarrow> (string \<times> real) list \<Rightarrow> BeamCandidate list \<Rightarrow> BeamCandidate list" where
  "expandAll adjacency scores beams = concat (map (expandBeam adjacency scores) beams)"

text \<open>
  \<open>expansions.sort((a, b) => b.score - a.score || a.nodePath.join("").localeCompare(...))\<close>:
  a stable sort, descending by score, then ascending by the joined path.
\<close>

definition sortExpansions :: "BeamCandidate list \<Rightarrow> BeamCandidate list" where
  "sortExpansions expansions = sort_key (\<lambda>c. (- score c, concat (nodePath c))) expansions"

function beamLoop :: "(string \<rightharpoonup> Edge list) \<Rightarrow> (string \<times> real) list \<Rightarrow> nat \<Rightarrow> nat \<Rightarrow> BeamCandidate list \<Rightarrow> BeamCandidate list" where
  "beamLoop adjacency scores bw depth beams =
     (if depth < 3 then
        (let expansions = expandAll adjacency scores beams
         in if length expansions = 0 then beams
            else beamLoop adjacency scores bw (depth + 1) (take bw (sortExpansions expansions)))
      else beams)"
  by pat_completeness auto
termination
  by (relation "measure (\<lambda>(adjacency, scores, bw, depth, beams). 3 - depth)") auto

declare beamLoop.simps [simp del]

definition beamReconstruct :: "Graph \<Rightarrow> (string \<times> real) list \<Rightarrow> string list \<Rightarrow> nat \<Rightarrow> BeamCandidate list" where
  "beamReconstruct g scores active bw =
     (let adjacency = makeAdjacency (edges g);
          seeds = beamSeeds g active
      in beamLoop adjacency scores bw 0 (seedBeams scores seeds))"

subsection \<open>interpret (here interpretSummary)\<close>

text \<open>\<open>entries.sort((a, b) => b[1] - a[1] || a[0].localeCompare(b[0]))\<close>.\<close>

definition sortEntries :: "(string \<times> real) list \<Rightarrow> (string \<times> real) list" where
  "sortEntries entries = sort_key (\<lambda>(k, v). (- v, k)) entries"

definition top5 :: "(string \<times> real) list \<Rightarrow> (string \<times> real) list" where
  "top5 entries = map (\<lambda>(k, v). (k, round3 v)) (take 5 (sortEntries entries))"

definition edgeContribution :: "BeamCandidate list \<Rightarrow> (string \<times> real) list" where
  "edgeContribution beams =
     fold (\<lambda>beam m. fold (\<lambda>edgeId m'. AList.update edgeId (getOr0 m' edgeId + score beam) m')
                       (edgePath beam) m)
       beams []"

definition interpretSummary :: "BeamCandidate list \<Rightarrow> (string \<times> real) list \<Rightarrow> Graph \<Rightarrow> InterpretationSummary" where
  "interpretSummary beams scores g =
     \<lparr>topNodes = top5 scores,
      topEdges = top5 (edgeContribution beams),
      centroid = fold (\<lambda>node c. AList.update (idN node) (getOr0 scores (idN node)) c) (nodes g) []\<rparr>"

subsection \<open>l2Distance\<close>

text \<open>\<open>new Set([...])\<close>: the elements in the order of their first occurrence.\<close>

definition Set_of :: "string list \<Rightarrow> string list" where
  "Set_of xs = fold (\<lambda>x acc. if x \<in> set acc then acc else acc @ [x]) xs []"

definition l2Distance :: "(string \<times> real) list \<Rightarrow> (string \<times> real) list \<Rightarrow> real" where
  "l2Distance a b =
     (let keys = Set_of (Object_keys a @ Object_keys b);
          sm = fold (\<lambda>key sm'.
                 (let va = getOr0 a key; vb = getOr0 b key; diff = va - vb
                  in sm' + diff * diff)) keys 0
      in sqrt sm)"

subsection \<open>updateWeights and the context drift\<close>

definition updateEdge :: "(string \<times> real) list \<Rightarrow> PipelineParams \<Rightarrow> Edge \<Rightarrow> nat \<times> Edge list \<Rightarrow> nat \<times> Edge list" where
  "updateEdge scores p edge st =
     (let (rng, out) = st;
          sourceScore = getOr0 scores (source edge);
          targetScore = getOr0 scores (target edge);
          meanActivation = (sourceScore + targetScore) / 2;
          noveltyPush = (if priorE edge then 0 else driftBias p);
          (rng1, r) = rng_next rng;
          stochastic = (r - 0.5) * 0.02;
          nextWeight = clamp01 (weight edge * (1 - weightLearningRate p) +
                                meanActivation * weightLearningRate p +
                                noveltyPush * 0.05 + stochastic)
      in (rng1, out @ [edge\<lparr>weight := round3 nextWeight\<rparr>]))"

definition updateWeights :: "Graph \<Rightarrow> (string \<times> real) list \<Rightarrow> PipelineParams \<Rightarrow> nat \<Rightarrow> Graph" where
  "updateWeights g scores p stepSeed =
     g\<lparr>edges := snd (fold (updateEdge scores p) (edges g) (createRng stepSeed, []))\<rparr>"

definition toEdgeWeightMap :: "Edge list \<Rightarrow> (string \<times> real) list" where
  "toEdgeWeightMap es = fold (\<lambda>edge result. AList.update (idE edge) (weight edge) result) es []"

text \<open>
  The \<open>contextKeys.forEach\<close> of \<open>runPipeline\<close>. Every key comes from
  \<open>Object.keys(context)\<close>, so \<open>context[key]\<close> is a stored number.
\<close>

definition updateContext :: "nat \<Rightarrow> PipelineParams \<Rightarrow> ContextVector \<Rightarrow> ContextVector" where
  "updateContext stp p ctx =
     (let contextKeys = Object_keys ctx
      in fold (\<lambda>(index, key) c.
                 (let perturb = sin (real ((stp + 1) * (index + 1))) * 0.005
                  in AList.update key
                       (round3 (clamp01 (the (map_of c key) + perturb + driftBias p * 0.01))) c))
           (enumerate 0 contextKeys) ctx)"

subsection \<open>runPipeline\<close>

definition stepLog :: "PipelineParams \<Rightarrow> nat \<Rightarrow> Graph \<Rightarrow> (string \<times> real) list \<Rightarrow> (string \<times> real) list option \<Rightarrow> StepRunLog" where
  "stepLog p stp g scores previousActivationVector =
     (let rigid = applyRigidity g scores p;
          beams = beamReconstruct (keptGraph rigid) scores (activeSetR rigid) (beamWidth p);
          interp = interpretSummary beams scores (keptGraph rigid);
          dlt = (case previousActivationVector of
                   Some prev \<Rightarrow> toFixed3 (l2Distance prev scores)
                 | None \<Rightarrow> 0)
      in \<lparr>step = stp, seedS = seed p, paramsS = p,
          activeSet = sort (activeSetR rigid),
          prunedNodes = sort (prunedNodesR rigid),
          prunedEdges = sort (prunedEdgesR rigid),
          beamCandidates = beams,
          interpretationS = interp,
          activationVector = scores,
          edgeWeights = toEdgeWeightMap (edges g),
          delta = dlt\<rparr>)"

text \<open>The tail of the loop body: drift, on every iteration but the last.\<close>

definition drift :: "PipelineParams \<Rightarrow> nat \<Rightarrow> (string \<times> real) list \<Rightarrow> Graph \<times> ContextVector \<Rightarrow> Graph \<times> ContextVector" where
  "drift p stp scores st =
     (let (g, ctx) = st
      in if int stp < int (recursionDepth p) - 1
         then (updateWeights g scores p (seed p + stp + 1), updateContext stp p ctx)
         else (g, ctx))"

function pipelineLoop :: "PipelineParams \<Rightarrow> nat \<Rightarrow> Graph \<times> ContextVector \<Rightarrow> (string \<times> real) list option \<Rightarrow> StepRunLog list \<Rightarrow> (Graph \<times> ContextVector) \<times> StepRunLog list" where
  "pipelineLoop p stp st previousActivationVector stps =
     (if stp < recursionDepth p then
        (let scores = activationScores (fst st) (snd st) p
         in pipelineLoop p (stp + 1) (drift p stp scores st) (Some scores)
              (stps @ [stepLog p stp (fst st) scores previousActivationVector]))
      else (st, stps))"
  by pat_completeness auto
termination
  by (relation "measure (\<lambda>(p, stp, st, prev, stps). recursionDepth p - stp)") auto

declare pipelineLoop.simps [simp del]

definition runPipeline :: "PipelineParams \<Rightarrow> SimulationOutput" where
  "runPipeline p =
     (let (st, stps) = pipelineLoop p 0 (generateGraph (seed p) p) None []
      in \<lparr>graph = fst st, contextOut = snd st,
          runlog = \<lparr>model = ''PUTMAN Pipeline Visual Simulator'',
                    createdAt = ''deterministic'',
                    paramsR = p,
                    steps = stps\<rparr>\<rparr>)"

section \<open>hash.ts\<close>

text \<open>
  A value of the host language, as \<open>stableStringify\<close> sees it: a primitive, an array, or
  an object with its own keys in insertion order. \<open>JSON.stringify\<close> on a primitive (the
  shortest decimal of a number, the quoted and escaped string) belongs to the host
  language and is the parameter \<open>js\<close>.
\<close>

datatype prim = PNull | PBool bool | PNum real | PStr string

datatype json = Prim prim | Arr "json list" | Obj "(string \<times> json) list"

function stableStringify :: "(prim \<Rightarrow> string) \<Rightarrow> json \<Rightarrow> string" where
  "stableStringify js (Prim v) = js v"
| "stableStringify js (Arr items) =
     ''['' @ join '','' (map (\<lambda>item. stableStringify js item) items) @ '']''"
| "stableStringify js (Obj obj) =
     (let keys = sort (Object_keys obj)
      in ''{'' @ join '','' (map (\<lambda>key. js (PStr key) @ '':'' @
            (case map_of obj key of Some v \<Rightarrow> stableStringify js v | None \<Rightarrow> []))
          keys) @ ''}'')"
  by pat_completeness auto
termination
proof (relation "measure (\<lambda>(js, v). size v)")
  fix js :: "prim \<Rightarrow> string" and obj :: "(string \<times> json) list" and keys key v
  assume "map_of obj key = Some v"
  then have "(key, v) \<in> set obj"
    by (rule map_of_SomeD)
  then have "size v < size_list (size_prod (\<lambda>_. 0) size) obj"
    by (rule size_list_estimation) simp
  then show "((js, v), (js, Obj obj)) \<in> measure (\<lambda>(js, v). size v)"
    by simp
qed (simp_all add: less_Suc_eq_le size_list_estimation')

definition charCodeAt :: "string \<Rightarrow> nat \<Rightarrow> 32 word" where
  "charCodeAt s i = of_char (s ! i)"

text \<open>The \<open>for\<close> loop of \<open>runlogHash\<close> over the indices of the serialized string.\<close>

definition fnvFold :: "string \<Rightarrow> 32 word" where
  "fnvFold serialized =
     fold (\<lambda>i hash. Math_imul (hash XOR charCodeAt serialized i) 16777619)
       [0..<length serialized] 2166136261"

definition runlogHash :: "(prim \<Rightarrow> string) \<Rightarrow> json \<Rightarrow> string" where
  "runlogHash js rl =
     padStart 8 (CHR ''0'') (toStringRadix 16 (unat (fnvFold (stableStringify js rl))))"

subsection \<open>The RunLog as a value of the host language\<close>

text \<open>
  The objects the engine builds, with their keys in the order the object literals of
  \<open>runPipeline\<close>, \<open>beamReconstruct\<close> and \<open>interpret\<close> write them.
\<close>

definition num :: "real \<Rightarrow> json" where
  "num x = Prim (PNum x)"

definition str :: "string \<Rightarrow> json" where
  "str s = Prim (PStr s)"

definition numberRecord_value :: "(string \<times> real) list \<Rightarrow> json" where
  "numberRecord_value m = Obj (map (\<lambda>(k, v). (k, num v)) m)"

definition entries_value :: "(string \<times> real) list \<Rightarrow> json" where
  "entries_value es = Arr (map (\<lambda>(k, v). Obj [(''id'', str k), (''score'', num v)]) es)"

definition PipelineParams_value :: "PipelineParams \<Rightarrow> json" where
  "PipelineParams_value p =
     Obj [(''seed'', num (real (seed p))),
          (''nodeCount'', num (real (nodeCount p))),
          (''edgeDensity'', num (edgeDensity p)),
          (''overlapPercent'', num (overlapPercent p)),
          (''recursionDepth'', num (real (recursionDepth p))),
          (''rigidity'', num (rigidity p)),
          (''beamWidth'', num (real (beamWidth p))),
          (''activationThreshold'', num (activationThreshold p)),
          (''contextBlend'', num (contextBlend p)),
          (''weightLearningRate'', num (weightLearningRate p)),
          (''driftBias'', num (driftBias p))]"

definition BeamCandidate_value :: "BeamCandidate \<Rightarrow> json" where
  "BeamCandidate_value b =
     Obj [(''nodePath'', Arr (map str (nodePath b))),
          (''edgePath'', Arr (map str (edgePath b))),
          (''score'', num (score b))]"

definition InterpretationSummary_value :: "InterpretationSummary \<Rightarrow> json" where
  "InterpretationSummary_value i =
     Obj [(''topNodes'', entries_value (topNodes i)),
          (''topEdges'', entries_value (topEdges i)),
          (''centroid'', numberRecord_value (centroid i))]"

definition StepRunLog_value :: "StepRunLog \<Rightarrow> json" where
  "StepRunLog_value s =
     Obj [(''step'', num (real (step s))),
          (''seed'', num (real (seedS s))),
          (''params'', PipelineParams_value (paramsS s)),
          (''activeSet'', Arr (map str (activeSet s))),
          (''prunedNodes'', Arr (map str (prunedNodes s))),
          (''prunedEdges'', Arr (map str (prunedEdges s))),
          (''beamCandidates'', Arr (map BeamCandidate_value (beamCandidates s))),
          (''interpretation'', InterpretationSummary_value (interpretationS s)),
          (''activationVector'', numberRecord_value (activationVector s)),
          (''edgeWeights'', numberRecord_value (edgeWeights s)),
          (''delta'', num (delta s))]"

definition RunLog_value :: "RunLog \<Rightarrow> json" where
  "RunLog_value r =
     Obj [(''model'', str (model r)),
          (''createdAt'', str (createdAt r)),
          (''params'', PipelineParams_value (paramsR r)),
          (''steps'', Arr (map StepRunLog_value (steps r)))]"

section \<open>The engine over an explicit store\<close>

text \<open>
  The mutable objects of the engine, made explicit. \<open>createRng\<close> returns a closure over
  its own variable \<open>state\<close>, which every \<open>next()\<close> overwrites; \<open>generateGraph\<close>
  allocates the context object, which \<open>runPipeline\<close> overwrites entry by entry between
  steps. A world holds the \<open>state\<close> variable of every closure and every context object
  created so far, by address, with the next free address of each kind. The functions
  below are the ones above with every such read and write spelt out on the world; objects
  that are never written after their construction (nodes, edges, score maps, step records)
  stay values. The modules have no other variable that outlives a call.
\<close>

record World =
  rngCells :: "nat \<Rightarrow> nat"
  rngCount :: nat
  contextCells :: "nat \<Rightarrow> ContextVector"
  contextCount :: nat

text \<open>\<open>createRng(seed)\<close>: a new closure, whose address stands for the returned object.\<close>

definition createRngW :: "nat \<Rightarrow> World \<Rightarrow> nat \<times> World" where
  "createRngW sd w =
     (rngCount w,
      w\<lparr>rngCells := (rngCells w)(rngCount w := sd mod 2 ^ 32), rngCount := Suc (rngCount w)\<rparr>)"

text \<open>\<open>rng.next()\<close>: reads and overwrites the variable of the closure at \<open>r\<close>.\<close>

definition nextW :: "nat \<Rightarrow> World \<Rightarrow> real \<times> World" where
  "nextW r w =
     (let state1 = rngCells w r + 0x6d2b79f5;
          t0 = (word_of_nat state1 :: 32 word);
          t1 = Math_imul (t0 XOR drop_bit 15 t0) (t0 OR 1);
          t2 = t1 XOR (t1 + Math_imul (t1 XOR drop_bit 7 t1) (t1 OR 61))
      in (real (unat (t2 XOR drop_bit 14 t2)) / 4294967296,
          w\<lparr>rngCells := (rngCells w)(r := state1)\<rparr>))"

definition genEdgeStepW :: "real \<Rightarrow> Node list \<Rightarrow> nat \<Rightarrow> nat \<Rightarrow> nat \<Rightarrow> World \<times> Edge list \<Rightarrow> World \<times> Edge list" where
  "genEdgeStepW density ns r i j st =
     (let (w, es) = st;
          (x, w1) = nextW r w
      in if x \<le> density then
           (let src = idN (ns ! i);
                tgt = idN (ns ! j);
                (x2, w2) = nextW r w1
            in (w2, es @ [\<lparr>idE = src @ ''->'' @ tgt, source = src, target = tgt,
                            weight = round3 (0.2 + x2 * 0.8),
                            priorE = (priorN (ns ! i) \<and> priorN (ns ! j))\<rparr>]))
         else (w1, es))"

definition genEdgesW :: "real \<Rightarrow> Node list \<Rightarrow> nat \<Rightarrow> World \<Rightarrow> World \<times> Edge list" where
  "genEdgesW density ns r w =
     fold (\<lambda>i st. fold (\<lambda>j. genEdgeStepW density ns r i j) [i + 1..<length ns] st)
       [0..<length ns] (w, [])"

text \<open>\<open>const context: ContextVector = {}\<close>: a new, empty context object.\<close>

definition newContextW :: "World \<Rightarrow> nat \<times> World" where
  "newContextW w =
     (contextCount w,
      w\<lparr>contextCells := (contextCells w)(contextCount w := []),
        contextCount := Suc (contextCount w)\<rparr>)"

definition genContextStepW :: "nat \<Rightarrow> nat \<Rightarrow> Node \<Rightarrow> World \<Rightarrow> World" where
  "genContextStepW r c node w =
     (let base = (if priorN node then 0.45 else 0.35);
          noveltyLift = (if novelty node then 0.2 else 0);
          (x, w1) = nextW r w
      in w1\<lparr>contextCells := (contextCells w1)
              (c := AList.update (idN node) (round3 (base + noveltyLift + x * 0.25))
                      (contextCells w1 c))\<rparr>)"

definition generateGraphW :: "nat \<Rightarrow> PipelineParams \<Rightarrow> World \<Rightarrow> (Graph \<times> nat) \<times> World" where
  "generateGraphW sd p w =
     (let (r, w1) = createRngW sd w;
          ns = genNodes p;
          (w2, es) = genEdgesW (edgeDensity p) ns r w1;
          (c, w3) = newContextW w2;
          w4 = fold (genContextStepW r c) ns w3
      in ((\<lparr>nodes = ns, edges = es\<rparr>, c), w4))"

definition updateEdgeW :: "(string \<times> real) list \<Rightarrow> PipelineParams \<Rightarrow> nat \<Rightarrow> Edge \<Rightarrow> World \<times> Edge list \<Rightarrow> World \<times> Edge list" where
  "updateEdgeW scores p r edge st =
     (let (w, out) = st;
          sourceScore = getOr0 scores (source edge);
          targetScore = getOr0 scores (target edge);
          meanActivation = (sourceScore + targetScore) / 2;
          noveltyPush = (if priorE edge then 0 else driftBias p);
          (x, w1) = nextW r w;
          stochastic = (x - 0.5) * 0.02;
          nextWeight = clamp01 (weight edge * (1 - weightLearningRate p) +
                                meanActivation * weightLearningRate p +
                                noveltyPush * 0.05 + stochastic)
      in (w1, out @ [edge\<lparr>weight := round3 nextWeight\<rparr>]))"

definition updateWeightsW :: "Graph \<Rightarrow> (string \<times> real) list \<Rightarrow> PipelineParams \<Rightarrow> nat \<Rightarrow> World \<Rightarrow> Graph \<times> World" where
  "updateWeightsW g scores p stepSeed w =
     (let (r, w1) = createRngW stepSeed w;
          (w2, es) = fold (updateEdgeW scores p r) (edges g) (w1, [])
      in (g\<lparr>edges := es\<rparr>, w2))"

text \<open>The \<open>contextKeys.forEach\<close> of \<open>runPipeline\<close>, writing into the context object at \<open>c\<close>.\<close>

definition updateContextW :: "nat \<Rightarrow> PipelineParams \<Rightarrow> nat \<Rightarrow> World \<Rightarrow> World" where
  "updateContextW stp p c w =
     (let contextKeys = Object_keys (contextCells w c)
      in fold (\<lambda>(index, key) w'.
                 (let perturb = sin (real ((stp + 1) * (index + 1))) * 0.005
                  in w'\<lparr>contextCells := (contextCells w')
                          (c := AList.update key
                                  (round3 (clamp01 (the (map_of (contextCells w' c) key) +
                                                    perturb + driftBias p * 0.01)))
                                  (contextCells w' c))\<rparr>))
           (enumerate 0 contextKeys) w)"

definition driftW :: "PipelineParams \<Rightarrow> nat \<Rightarrow> (string \<times> real) list \<Rightarrow> Graph \<Rightarrow> nat \<Rightarrow> World \<Rightarrow> Graph \<times> World" where
  "driftW p stp scores g c w =
     (if int stp < int (recursionDepth p) - 1
      then (let (g1, w1) = updateWeightsW g scores p (seed p + stp + 1) w
            in (g1, updateContextW stp p c w1))
      else (g, w))"

function pipelineLoopW :: "PipelineParams \<Rightarrow> nat \<Rightarrow> Graph \<Rightarrow> nat \<Rightarrow> (string \<times> real) list option \<Rightarrow> StepRunLog list \<Rightarrow> World \<Rightarrow> (Graph \<times> StepRunLog list) \<times> World" where
  "pipelineLoopW p stp g c previousActivationVector stps w =
     (if stp < recursionDepth p then
        (let scores = activationScores g (contextCells w c) p;
             gw = driftW p stp scores g c w
         in pipelineLoopW p (stp + 1) (fst gw) c (Some scores)
              (stps @ [stepLog p stp g scores previousActivationVector]) (snd gw))
      else ((g, stps), w))"
  by pat_completeness auto
termination
  by (relation "measure (\<lambda>(p, stp, g, c, prev, stps, w). recursionDepth p - stp)") auto

declare pipelineLoopW.simps [simp del]

text \<open>What a call returns: the graph, the context object (by address) and the RunLog.\<close>

record SimulationOutputW =
  graphW :: Graph
  contextRef :: nat
  runlogW :: RunLog

definition runPipelineW :: "PipelineParams \<Rightarrow> World \<Rightarrow> SimulationOutputW \<times> World" where
  "runPipelineW p w =
     (let ((g, c), w1) = generateGraphW (seed p) p w;
          ((g', stps), w2) = pipelineLoopW p 0 g c None [] w1
      in (\<lparr>graphW = g', contextRef = c,
           runlogW = \<lparr>model = ''PUTMAN Pipeline Visual Simulator'',
                      createdAt = ''deterministic'',
                      paramsR = p,
                      steps = stps\<rparr>\<rparr>, w2))"

section \<open>core.determinism.test.ts\<close>

text \<open>The parameter record of the determinism test.\<close>

definition testParams :: PipelineParams where
  "testParams =
     \<lparr>nodeCount = 24, edgeDensity = 0.22, overlapPercent = 0.3, seed = 42,
      recursionDepth = 6, rigidity = 0.3, beamWidth = 4, activationThreshold = 0.5,
      contextBlend = 0.55, weightLearningRate = 0.2, driftBias = 0.08\<rparr>"

section \<open>Notions used to state the properties\<close>

text \<open>
  Two values of the host language with the same content: the same primitive, arrays that
  agree element by element, objects with the same keys (each once) and the same content
  under every key, whatever the insertion order of the keys.
\<close>

inductive reordered :: "json \<Rightarrow> json \<Rightarrow> bool" where
  reordered_Prim: "reordered (Prim v) (Prim v)"
| reordered_Arr: "list_all2 reordered xs ys \<Longrightarrow> reordered (Arr xs) (Arr ys)"
| reordered_Obj:
    "distinct (map fst r1) \<Longrightarrow> distinct (map fst r2) \<Longrightarrow>
     set (map fst r1) = set (map fst r2) \<Longrightarrow>
     (\<forall>k v1 v2. map_of r1 k = Some v1 \<longrightarrow> map_of r2 k = Some v2 \<longrightarrow> reordered v1 v2) \<Longrightarrow>
     reordered (Obj r1) (Obj r2)"

text \<open>
  32-bit FNV-1a as the specification words it: from the offset basis, one XOR and then one
  multiplication by the prime per character, kept to 32 bits.
\<close>

definition fnv1a :: "nat list \<Rightarrow> nat" where
  "fnv1a codes = foldl (\<lambda>h c. ((h XOR c) * 16777619) mod 2 ^ 32) 2166136261 codes"

definition isHexLower :: "char \<Rightarrow> bool" where
  "isHexLower c = (c \<in> set ''0123456789abcdef'')"

text \<open>
  The graph and context that \<open>runPipeline\<close> holds when iteration \<open>k\<close> of its loop
  starts, the scores that iteration computes, the vector it compares them with, and the
  record it pushes. Lemma \<open>pipelineLoop_unroll\<close> below shows that the loop is exactly this.
\<close>

primrec stateAt :: "PipelineParams \<Rightarrow> nat \<Rightarrow> Graph \<times> ContextVector" where
  "stateAt p 0 = generateGraph (seed p) p"
| "stateAt p (Suc k) =
     drift p k (activationScores (fst (stateAt p k)) (snd (stateAt p k)) p) (stateAt p k)"

definition scoresAt :: "PipelineParams \<Rightarrow> nat \<Rightarrow> (string \<times> real) list" where
  "scoresAt p k = activationScores (fst (stateAt p k)) (snd (stateAt p k)) p"

definition previousAt :: "PipelineParams \<Rightarrow> nat \<Rightarrow> (string \<times> real) list option" where
  "previousAt p k = (if k = 0 then None else Some (scoresAt p (k - 1)))"

definition stepLogAt :: "PipelineParams \<Rightarrow> nat \<Rightarrow> StepRunLog" where
  "stepLogAt p k = stepLog p k (fst (stateAt p k)) (scoresAt p k) (previousAt p k)"

text \<open>The pruning result of iteration \<open>k\<close> of a run.\<close>

definition rigidAt :: "PipelineParams \<Rightarrow> nat \<Rightarrow> RigidResult" where
  "rigidAt p k = applyRigidity (fst (stateAt p k)) (scoresAt p k) p"

text \<open>What one edge contributes to the adjacency list of \<open>v\<close>: itself, once per endpoint equal to \<open>v\<close>.\<close>

definition incidentTo :: "string \<Rightarrow> Edge \<Rightarrow> Edge list" where
  "incidentTo v edge = (if source edge = v then [edge] else []) @ (if target edge = v then [edge] else [])"

text \<open>A small graph and score map, used to instantiate the theorems.\<close>

definition tinyGraph :: Graph where
  "tinyGraph =
     \<lparr>nodes = [\<lparr>idN = ''n000'', priorN = True, novelty = False\<rparr>,
               \<lparr>idN = ''n001'', priorN = True, novelty = True\<rparr>,
               \<lparr>idN = ''n002'', priorN = False, novelty = True\<rparr>],
      edges = [\<lparr>idE = ''n000->n001'', source = ''n000'', target = ''n001'',
                weight = 0.5, priorE = True\<rparr>,
               \<lparr>idE = ''n001->n002'', source = ''n001'', target = ''n002'',
                weight = 0.9, priorE = False\<rparr>]\<rparr>"

definition tinyScores :: "(string \<times> real) list" where
  "tinyScores = [(''n000'', 0.1), (''n001'', 0.2), (''n002'', 0.7)]"

text \<open>The small graph without its edges.\<close>

definition isolatedGraph :: Graph where
  "isolatedGraph = tinyGraph\<lparr>edges := []\<rparr>"

text \<open>
  The endpoint of an edge other than the last node of a candidate, and the candidate that
  extends a candidate along an edge.
\<close>

definition neighborVia :: "BeamCandidate \<Rightarrow> Edge \<Rightarrow> string" where
  "neighborVia beam edge =
     (if source edge = last (nodePath beam) then target edge else source edge)"

definition extendBeam :: "(string \<times> real) list \<Rightarrow> BeamCandidate \<Rightarrow> Edge \<Rightarrow> BeamCandidate" where
  "extendBeam scores beam edge =
     \<lparr>nodePath = nodePath beam @ [neighborVia beam edge],
      edgePath = edgePath beam @ [idE edge],
      score = round3 (score beam + getOr0 scores (neighborVia beam edge) + weight edge)\<rparr>"

text \<open>One expansion round: pool the expansions, sort them, keep the first \<open>bw\<close>.\<close>

definition beamRound :: "Graph \<Rightarrow> (string \<times> real) list \<Rightarrow> nat \<Rightarrow> BeamCandidate list \<Rightarrow> BeamCandidate list" where
  "beamRound g scores bw beams =
     take bw (sortExpansions (expandAll (makeAdjacency (edges g)) scores beams))"


text \<open>
  The Euclidean distance of two score maps as the specification words it: over the keys of
  either map, a key missing from one side counting as 0.
\<close>

definition l2_spec :: "(string \<times> real) list \<Rightarrow> (string \<times> real) list \<Rightarrow> real" where
  "l2_spec a b =
     sqrt (\<Sum>key \<in> set (Object_keys a) \<union> set (Object_keys b). (getOr0 a key - getOr0 b key)\<^sup>2)"

text \<open>Rounding to three decimals: the nearest multiple of \<open>1/1000\<close>, halves upwards.\<close>

definition rounded3 :: "real \<Rightarrow> real" where
  "rounded3 x = of_int (round (x * 1000)) / 1000"

text \<open>
  The index pairs \<open>i < j < n\<close> in the order the nested loops of \<open>generateGraph\<close> visit
  them, and the edge the loop body builds for a pair and a weight.
\<close>

definition pairsOf :: "nat \<Rightarrow> (nat \<times> nat) list" where
  "pairsOf n = concat (map (\<lambda>i. map (Pair i) [i + 1..<n]) [0..<n])"

definition edgeBetween :: "Node list \<Rightarrow> nat \<Rightarrow> nat \<Rightarrow> real \<Rightarrow> Edge" where
  "edgeBetween ns i j w =
     \<lparr>idE = idN (ns ! i) @ ''->'' @ idN (ns ! j), source = idN (ns ! i), target = idN (ns ! j),
      weight = w, priorE = (priorN (ns ! i) \<and> priorN (ns ! j))\<rparr>"

text \<open>The number a string of decimal digits denotes; it reads a node identifier back.\<close>

definition digitsValue :: "string \<Rightarrow> nat" where
  "digitsValue s = foldl (\<lambda>a c. 10 * a + (of_char c - 48)) 0 s"

text \<open>Membership in the unit interval.\<close>

definition in01 :: "real \<Rightarrow> bool" where
  "in01 x = (0 \<le> x \<and> x \<le> 1)"


text \<open>
  What holds of the graph and context of a run at every iteration: the nodes are the
  generated ones, edge identifiers are unique, every edge has a weight in the unit
  interval and two distinct endpoints among the nodes, and the context has exactly one
  entry per node, in node order, with a value in the unit interval.
\<close>

definition stateInv :: "PipelineParams \<Rightarrow> Graph \<times> ContextVector \<Rightarrow> bool" where
  "stateInv p st =
     (nodes (fst st) = genNodes p \<and>
      distinct (map idE (edges (fst st))) \<and>
      (\<forall>e \<in> set (edges (fst st)).
         in01 (weight e) \<and> source e \<noteq> target e \<and>
         source e \<in> idN ` set (genNodes p) \<and> target e \<in> idN ` set (genNodes p)) \<and>
      map fst (snd st) = map idN (genNodes p) \<and>
      (\<forall>v \<in> snd ` set (snd st). in01 v))"


text \<open>The new value of the context entry at position \<open>index\<close> after step \<open>stp\<close>.\<close>

definition perturbed :: "nat \<Rightarrow> PipelineParams \<Rightarrow> nat \<Rightarrow> real \<Rightarrow> real" where
  "perturbed stp p index v =
     round3 (clamp01 (v + sin (real ((stp + 1) * (index + 1))) * 0.005 + driftBias p * 0.01))"


text \<open>
  The degree score and the raw score as the specification words them: the mean weight of
  the edges incident to a node (0 without any), blended with the context score, plus the
  novelty bonus.
\<close>

definition meanIncidentWeight :: "Graph \<Rightarrow> string \<Rightarrow> real" where
  "meanIncidentWeight g v =
     (let incident = filter (\<lambda>edge. source edge = v \<or> target edge = v) (edges g)
      in if incident = [] then 0
         else sum_list (map weight incident) / real (length incident))"

definition rawScore :: "PipelineParams \<Rightarrow> Graph \<Rightarrow> real \<Rightarrow> Node \<Rightarrow> real" where
  "rawScore p g contextScore node =
     contextBlend p * contextScore +
     (1 - contextBlend p) * meanIncidentWeight g (idN node) +
     (if novelty node then 0.08 else 0)"


text \<open>
  Writing one closure variable or one context object of a world, and the footprint of a
  call: \<open>extends w w'\<close> says that \<open>w'\<close> has every object of \<open>w\<close> unchanged and possibly
  more objects.
\<close>

definition setRng :: "nat \<Rightarrow> nat \<Rightarrow> World \<Rightarrow> World" where
  "setRng r s w = w\<lparr>rngCells := (rngCells w)(r := s)\<rparr>"

definition setCtx :: "nat \<Rightarrow> ContextVector \<Rightarrow> World \<Rightarrow> World" where
  "setCtx c ctx w = w\<lparr>contextCells := (contextCells w)(c := ctx)\<rparr>"

definition extends :: "World \<Rightarrow> World \<Rightarrow> bool" where
  "extends w w' =
     (rngCount w \<le> rngCount w' \<and> contextCount w \<le> contextCount w' \<and>
      (\<forall>a < rngCount w. rngCells w' a = rngCells w a) \<and>
      (\<forall>a < contextCount w. contextCells w' a = contextCells w a))"

text \<open>
  The footprint of the loop of a call whose context object is at \<open>c\<close>: no object that
  existed before is changed but the context object at \<open>c\<close>, and no context object is
  allocated.
\<close>

definition touches :: "nat \<Rightarrow> World \<Rightarrow> World \<Rightarrow> bool" where
  "touches c w w' =
     (rngCount w \<le> rngCount w' \<and> contextCount w' = contextCount w \<and>
      (\<forall>a < rngCount w. rngCells w' a = rngCells w a) \<and>
      (\<forall>a. a \<noteq> c \<longrightarrow> contextCells w' a = contextCells w a))"

text \<open>Two worlds to start a call from: nothing allocated, and leftovers of other calls.\<close>

definition emptyWorld :: World where
  "emptyWorld = \<lparr>rngCells = (\<lambda>a. 0), rngCount = 0, contextCells = (\<lambda>a. []), contextCount = 0\<rparr>"

definition usedWorld :: World where
  "usedWorld =
     \<lparr>rngCells = (\<lambda>a. 1831565813 * (a + 7)), rngCount = 5,
      contextCells = (\<lambda>a. [(''n000'', 0.5), (''zzz'', 1)]), contextCount = 3\<rparr>"

section \<open>The hash of a RunLog\<close>

lemma sort_keys_eq:
  assumes "distinct (xs :: string list)" "distinct ys" "set xs = set ys"
  shows "sort xs = sort ys"
proof -
  have "sorted (sort xs)" "distinct (sort xs)" "sorted (sort ys)" "distinct (sort ys)"
    using assms by simp_all
  moreover have "set (sort xs) = set (sort ys)"
    using assms by simp
  ultimately show ?thesis
    by (rule sorted_distinct_set_unique)
qed

lemma stableStringify_reordered:
  "reordered a b \<Longrightarrow> stableStringify js a = stableStringify js b"
proof (induction rule: reordered.induct)
  case (reordered_Prim v)
  show ?case by simp
next
  case (reordered_Arr xs ys)
  then have "map (stableStringify js) xs = map (stableStringify js) ys"
    by (induction rule: list_all2_induct) auto
  then show ?case by simp
next
  case (reordered_Obj r1 r2)
  have keys: "sort (Object_keys r1) = sort (Object_keys r2)"
    unfolding Object_keys_def
    using reordered_Obj(1,2,3) by (rule sort_keys_eq)
  have "(case map_of r1 k of Some v \<Rightarrow> stableStringify js v | None \<Rightarrow> []) =
        (case map_of r2 k of Some v \<Rightarrow> stableStringify js v | None \<Rightarrow> [])" for k
  proof (cases "map_of r1 k")
    case None
    then have "k \<notin> set (map fst r2)"
      using reordered_Obj(3) by (simp add: map_of_eq_None_iff)
    then have "map_of r2 k = None"
      by (simp add: map_of_eq_None_iff)
    with None show ?thesis by simp
  next
    case (Some v1)
    then have "k \<in> set (map fst r2)"
      using reordered_Obj(3) by (metis domI dom_map_of_conv_image_fst set_map)
    then obtain v2 where v2: "map_of r2 k = Some v2"
      by (metis domD dom_map_of_conv_image_fst set_map)
    with Some reordered_Obj(4) have "stableStringify js v1 = stableStringify js v2"
      by blast
    with Some v2 show ?thesis by simp
  qed
  then show ?case
    by (simp add: keys)
qed

lemma length_toString16: "n < 16 ^ k \<Longrightarrow> 0 < k \<Longrightarrow> length (toStringRadix 16 n) \<le> k"
proof (induction n arbitrary: k rule: less_induct)
  case (less n)
  show ?case
  proof (cases "n < 16")
    case True
    then show ?thesis using less.prems by (simp add: toStringRadix.simps)
  next
    case False
    then obtain k' where k': "k = Suc k'" "0 < k'"
      using less.prems by (cases k; cases "k - 1") auto
    have "n div 16 < 16 ^ k'"
      using less.prems(1) k' by (simp add: less_mult_imp_div_less mult.commute)
    moreover have "n div 16 < n"
      using False by simp
    ultimately have "length (toStringRadix 16 (n div 16)) \<le> k'"
      using less.IH k' by simp
    then show ?thesis
      using False k' by (subst toStringRadix.simps) simp
  qed
qed

lemma digitChar_hex: "d < 16 \<Longrightarrow> isHexLower (digitChar d)"
proof -
  have "list_all (\<lambda>d. isHexLower (digitChar d)) [0..<16]"
    by code_simp
  moreover assume "d < 16"
  ultimately show ?thesis
    by (simp add: list_all_iff)
qed

lemma toString16_hex: "list_all isHexLower (toStringRadix 16 n)"
proof (induction n rule: less_induct)
  case (less n)
  show ?case
  proof (cases "n < 16")
    case True
    then show ?thesis by (simp add: toStringRadix.simps digitChar_hex)
  next
    case False
    then have "n div 16 < n" by simp
    then have "list_all isHexLower (toStringRadix 16 (n div 16))"
      by (rule less.IH)
    then show ?thesis
      using False by (subst toStringRadix.simps) (simp add: digitChar_hex)
  qed
qed

lemma runlogHash_format:
  "length (runlogHash js v) = 8 \<and> list_all isHexLower (runlogHash js v)"
proof -
  let ?h = "unat (fnvFold (stableStringify js v))"
  have "?h < 2 ^ 32"
    using unsigned_less [of "fnvFold (stableStringify js v)"] by simp
  then have "?h < 16 ^ 8" by simp
  then have "length (toStringRadix 16 ?h) \<le> 8"
    by (rule length_toString16) simp
  moreover have "isHexLower (CHR ''0'')" by (simp add: isHexLower_def)
  ultimately show ?thesis
    using toString16_hex [of ?h]
    by (auto simp: runlogHash_def padStart_def list_all_iff)
qed

lemma fold_index:
  "fold (\<lambda>i h. f h (s ! i)) [0..<length s] h0 = foldl f h0 s"
proof (induction s rule: rev_induct)
  case Nil
  show ?case by simp
next
  case (snoc x xs)
  have "fold (\<lambda>i h. f h ((xs @ [x]) ! i)) [0..<length xs] h0 =
        fold (\<lambda>i h. f h (xs ! i)) [0..<length xs] h0"
    by (rule fold_cong) (auto simp: nth_append)
  then show ?case
    using snoc by simp
qed

lemma unat_of_char: "unat (of_char c :: 32 word) = of_char c"
proof -
  have "(of_char c :: 32 word) = word_of_nat (of_char c)"
    by (simp add: of_nat_of_char)
  moreover have "(of_char c :: nat) < 2 ^ 32"
    by (rule less_trans [OF nat_of_char_less_256]) simp
  ultimately show ?thesis
    by (simp add: unat_of_nat del: of_nat_of_char)
qed

lemma unat_fnv_step:
  "unat (Math_imul (h XOR of_char c) 16777619 :: 32 word) =
   ((unat h XOR of_char c) * 16777619) mod 2 ^ 32"
  by (simp add: Math_imul_def unat_word_ariths unsigned_xor_eq unat_of_char)

lemma unat_foldl_fnv:
  "unat (foldl (\<lambda>h c. Math_imul (h XOR of_char c) 16777619) (h0 :: 32 word) s) =
   foldl (\<lambda>h c. ((h XOR c) * 16777619) mod 2 ^ 32) (unat h0) (map of_char s)"
  by (induction s arbitrary: h0) (simp_all add: unat_fnv_step)

lemma fnvFold_spec: "unat (fnvFold s) = fnv1a (map of_char s)"
proof -
  have "fnvFold s = foldl (\<lambda>h c. Math_imul (h XOR of_char c) 16777619) 2166136261 s"
    unfolding fnvFold_def charCodeAt_def by (rule fold_index)
  then show ?thesis
    by (simp add: unat_foldl_fnv fnv1a_def)
qed

text \<open>
  C3. The hash depends on the content of the RunLog only: two values that differ in the
  insertion order of the keys of any object inside them have the same hash. The hash is
  the 32-bit FNV-1a fold (offset basis 2166136261, prime 16777619, one XOR and then one
  multiplication per character) of the serialization, written as 8 lowercase hexadecimal
  digits.
\<close>

theorem runlogHash_canonical:
  "reordered a b \<Longrightarrow>
     runlogHash js a = runlogHash js b \<and>
     runlogHash js a =
       padStart 8 (CHR ''0'') (toStringRadix 16 (fnv1a (map of_char (stableStringify js a)))) \<and>
     length (runlogHash js a) = 8 \<and>
     list_all isHexLower (runlogHash js a)"
  using runlogHash_format [of js a]
  by (simp add: runlogHash_def stableStringify_reordered [of a b js] fnvFold_spec)

theorem runlogHash_canonical_witness:
  "reordered (Obj [(''steps'', Arr [Obj [(''step'', Prim (PNum 0)), (''delta'', Prim (PNum 0))]]),
                   (''model'', Prim (PStr ''m''))])
             (Obj [(''model'', Prim (PStr ''m'')),
                   (''steps'', Arr [Obj [(''delta'', Prim (PNum 0)), (''step'', Prim (PNum 0))]])]) \<and>
   runlogHash (\<lambda>v. case v of PStr s \<Rightarrow> s | _ \<Rightarrow> ''0'')
     (Obj [(''steps'', Arr [Obj [(''step'', Prim (PNum 0)), (''delta'', Prim (PNum 0))]]),
           (''model'', Prim (PStr ''m''))]) =
   runlogHash (\<lambda>v. case v of PStr s \<Rightarrow> s | _ \<Rightarrow> ''0'')
     (Obj [(''model'', Prim (PStr ''m'')),
           (''steps'', Arr [Obj [(''delta'', Prim (PNum 0)), (''step'', Prim (PNum 0))]])])"
proof -
  have inner: "reordered (Obj [(''step'', Prim (PNum 0)), (''delta'', Prim (PNum 0))])
                         (Obj [(''delta'', Prim (PNum 0)), (''step'', Prim (PNum 0))])"
    by (rule reordered_Obj) (auto intro: reordered_Prim split: if_splits)
  have h: "reordered (Obj [(''steps'', Arr [Obj [(''step'', Prim (PNum 0)), (''delta'', Prim (PNum 0))]]),
                   (''model'', Prim (PStr ''m''))])
             (Obj [(''model'', Prim (PStr ''m'')),
                   (''steps'', Arr [Obj [(''delta'', Prim (PNum 0)), (''step'', Prim (PNum 0))]])])"
    by (rule reordered_Obj) (auto intro: reordered_Prim reordered_Arr inner split: if_splits)
  show ?thesis
    using h runlogHash_canonical [OF h] by simp
qed

section \<open>The loop of runPipeline, iteration by iteration\<close>

lemma pipelineLoop_unroll:
  "pipelineLoop p k (stateAt p k) (previousAt p k) stps =
     (stateAt p (max k (recursionDepth p)), stps @ map (stepLogAt p) [k..<recursionDepth p])"
proof (induction "recursionDepth p - k" arbitrary: k stps)
  case 0
  then have "\<not> k < recursionDepth p" by simp
  then show ?case
    by (subst pipelineLoop.simps) (simp add: max_def)
next
  case (Suc n)
  then have lt: "k < recursionDepth p" and n: "n = recursionDepth p - Suc k"
    by simp_all
  have prev: "Some (scoresAt p k) = previousAt p (Suc k)"
    by (simp add: previousAt_def)
  have "pipelineLoop p k (stateAt p k) (previousAt p k) stps =
        pipelineLoop p (Suc k) (stateAt p (Suc k)) (previousAt p (Suc k))
          (stps @ [stepLogAt p k])"
    using lt
    by (subst pipelineLoop.simps) (simp add: Let_def scoresAt_def [symmetric] prev stepLogAt_def)
  also have "\<dots> = (stateAt p (max (Suc k) (recursionDepth p)),
                   (stps @ [stepLogAt p k]) @ map (stepLogAt p) [Suc k..<recursionDepth p])"
    using Suc.hyps(1) [OF n] .
  finally show ?case
    using lt by (simp add: upt_conv_Cons max_def)
qed

lemma stateAt_last: "0 < recursionDepth p \<Longrightarrow> stateAt p (recursionDepth p) = stateAt p (recursionDepth p - 1)"
  by (cases "recursionDepth p") (simp_all add: drift_def split: prod.splits)

lemma runPipeline_steps: "steps (runlog (runPipeline p)) = map (stepLogAt p) [0..<recursionDepth p]"
  using pipelineLoop_unroll [of p 0 "[]"]
  by (simp add: runPipeline_def previousAt_def)

lemma runPipeline_final:
  "graph (runPipeline p) = fst (stateAt p (recursionDepth p)) \<and>
   contextOut (runPipeline p) = snd (stateAt p (recursionDepth p))"
  using pipelineLoop_unroll [of p 0 "[]"]
  by (simp add: runPipeline_def previousAt_def)

lemma runPipeline_step_nth:
  "k < recursionDepth p \<Longrightarrow> steps (runlog (runPipeline p)) ! k = stepLogAt p k"
  by (simp add: runPipeline_steps)

section \<open>makeAdjacency\<close>

lemma getAdj_step:
  "getAdj (pushAdj (target edge) edge (pushAdj (source edge) edge
            (ensureAdj (target edge) (ensureAdj (source edge) adjacency)))) v =
   getAdj adjacency v @ incidentTo v edge"
  by (auto simp: getAdj_def pushAdj_def ensureAdj_def incidentTo_def split: option.splits)

lemma getAdj_fold:
  "getAdj (fold (\<lambda>edge adjacency.
             pushAdj (target edge) edge
               (pushAdj (source edge) edge
                 (ensureAdj (target edge) (ensureAdj (source edge) adjacency))))
       es adjacency) v = getAdj adjacency v @ concat (map (incidentTo v) es)"
  by (induction es arbitrary: adjacency) (simp_all add: getAdj_step)

lemma getAdj_makeAdjacency:
  "getAdj (makeAdjacency es) v = concat (map (incidentTo v) es)"
  unfolding makeAdjacency_def by (simp add: getAdj_fold) (simp add: getAdj_def)

lemma set_getAdj_makeAdjacency:
  "set (getAdj (makeAdjacency es) v) = {edge \<in> set es. source edge = v \<or> target edge = v}"
  by (auto simp: getAdj_makeAdjacency incidentTo_def split: if_splits)

lemma getAdj_no_loops:
  "\<forall>edge \<in> set es. source edge \<noteq> target edge \<Longrightarrow>
   getAdj (makeAdjacency es) v = filter (\<lambda>edge. source edge = v \<or> target edge = v) es"
  unfolding getAdj_makeAdjacency
  by (induction es) (auto simp: incidentTo_def)

section \<open>applyRigidity\<close>

lemma applyRigidity_activeSet:
  "activeSetR (applyRigidity g scores p) =
     map idN (filter (\<lambda>node. geqProp scores (idN node) (activationThreshold p)) (nodes g))"
  by (simp add: applyRigidity_def Let_def)

lemma applyRigidity_keptNodes:
  "nodes (keptGraph (applyRigidity g scores p)) =
     filter (\<lambda>node. geqProp scores (idN node) (activationThreshold p * rigidity p)) (nodes g)"
  by (simp add: applyRigidity_def Let_def)

lemma applyRigidity_keptEdges:
  "edges (keptGraph (applyRigidity g scores p)) =
     filter (\<lambda>edge. source edge \<in> idN ` set (nodes (keptGraph (applyRigidity g scores p))) \<and>
                     target edge \<in> idN ` set (nodes (keptGraph (applyRigidity g scores p))) \<and>
                     rigidity p \<le> weight edge) (edges g)"
  by (simp add: applyRigidity_def Let_def)

lemma applyRigidity_prunedNodes:
  "prunedNodesR (applyRigidity g scores p) =
     map idN (filter (\<lambda>node. idN node \<notin> idN ` set (nodes (keptGraph (applyRigidity g scores p)))) (nodes g))"
  by (simp add: applyRigidity_def Let_def)

lemma geqProp_mono: "geqProp scores key t \<Longrightarrow> t' \<le> t \<Longrightarrow> geqProp scores key t'"
  by (auto simp: geqProp_def split: option.splits)

lemma threshold_scaled: "(r :: real) \<le> 1 \<Longrightarrow> 0 \<le> t \<Longrightarrow> t * r \<le> t"
  using mult_left_mono [of r 1 t] by simp

lemma active_subset_kept:
  assumes "rigidity p \<le> 1" "0 \<le> activationThreshold p"
  shows "set (activeSetR (applyRigidity g scores p)) \<subseteq>
         idN ` set (nodes (keptGraph (applyRigidity g scores p)))"
proof
  fix x assume "x \<in> set (activeSetR (applyRigidity g scores p))"
  then obtain node where node: "node \<in> set (nodes g)" "idN node = x"
      "geqProp scores (idN node) (activationThreshold p)"
    by (auto simp: applyRigidity_activeSet)
  have "geqProp scores (idN node) (activationThreshold p * rigidity p)"
    using node(3) threshold_scaled [OF assms] by (rule geqProp_mono)
  with node show "x \<in> idN ` set (nodes (keptGraph (applyRigidity g scores p)))"
    by (auto simp: applyRigidity_keptNodes)
qed

lemma stepLogAt_activeSet: "activeSet (stepLogAt p k) = sort (activeSetR (rigidAt p k))"
  by (simp add: stepLogAt_def stepLog_def rigidAt_def Let_def)

lemma stepLogAt_prunedNodes: "prunedNodes (stepLogAt p k) = sort (prunedNodesR (rigidAt p k))"
  by (simp add: stepLogAt_def stepLog_def rigidAt_def Let_def)

text \<open>
  C4. With \<open>rigidity \<le> 1\<close> and \<open>activationThreshold \<ge> 0\<close>, the active set (the
  nodes whose score reaches the threshold) is a subset of the identifiers of the kept nodes
  (the nodes whose score reaches threshold times rigidity), for every graph and score map,
  hence at every step of every run; there the logged active set is also disjoint from the
  logged pruned nodes.
\<close>

theorem activeSet_subset_keptNodes:
  assumes "rigidity p \<le> 1" and "0 \<le> activationThreshold p"
  shows "set (activeSetR (applyRigidity g scores p)) =
           idN ` {node \<in> set (nodes g). geqProp scores (idN node) (activationThreshold p)} \<and>
         set (nodes (keptGraph (applyRigidity g scores p))) =
           {node \<in> set (nodes g). geqProp scores (idN node) (activationThreshold p * rigidity p)} \<and>
         set (activeSetR (applyRigidity g scores p)) \<subseteq>
           idN ` set (nodes (keptGraph (applyRigidity g scores p))) \<and>
         (\<forall>k < recursionDepth p.
            set (activeSet (steps (runlog (runPipeline p)) ! k)) \<subseteq>
              idN ` set (nodes (keptGraph (rigidAt p k))) \<and>
            set (activeSet (steps (runlog (runPipeline p)) ! k)) \<inter>
              set (prunedNodes (steps (runlog (runPipeline p)) ! k)) = {})"
proof (intro conjI allI impI)
  show "set (activeSetR (applyRigidity g scores p)) =
           idN ` {node \<in> set (nodes g). geqProp scores (idN node) (activationThreshold p)}"
    by (auto simp: applyRigidity_activeSet)
  show "set (nodes (keptGraph (applyRigidity g scores p))) =
           {node \<in> set (nodes g). geqProp scores (idN node) (activationThreshold p * rigidity p)}"
    by (auto simp: applyRigidity_keptNodes)
  show "set (activeSetR (applyRigidity g scores p)) \<subseteq>
           idN ` set (nodes (keptGraph (applyRigidity g scores p)))"
    using assms by (rule active_subset_kept)
next
  fix k assume k: "k < recursionDepth p"
  have sub: "set (activeSetR (rigidAt p k)) \<subseteq> idN ` set (nodes (keptGraph (rigidAt p k)))"
    unfolding rigidAt_def using assms by (rule active_subset_kept)
  then show "set (activeSet (steps (runlog (runPipeline p)) ! k)) \<subseteq>
              idN ` set (nodes (keptGraph (rigidAt p k)))"
    using k by (simp add: runPipeline_step_nth stepLogAt_activeSet)
  have "set (prunedNodesR (rigidAt p k)) \<inter> idN ` set (nodes (keptGraph (rigidAt p k))) = {}"
    unfolding rigidAt_def by (subst applyRigidity_prunedNodes) auto
  with sub show "set (activeSet (steps (runlog (runPipeline p)) ! k)) \<inter>
              set (prunedNodes (steps (runlog (runPipeline p)) ! k)) = {}"
    using k by (auto simp: runPipeline_step_nth stepLogAt_activeSet stepLogAt_prunedNodes)
qed

theorem activeSet_subset_keptNodes_witness:
  "rigidity testParams \<le> 1 \<and> 0 \<le> activationThreshold testParams \<and>
   set (activeSetR (applyRigidity tinyGraph tinyScores testParams)) \<subseteq>
     idN ` set (nodes (keptGraph (applyRigidity tinyGraph tinyScores testParams))) \<and>
   activeSetR (applyRigidity tinyGraph tinyScores testParams) = [''n002''] \<and>
   map idN (nodes (keptGraph (applyRigidity tinyGraph tinyScores testParams))) = [''n001'', ''n002'']"
proof -
  have h1: "rigidity testParams \<le> 1" and h2: "0 \<le> activationThreshold testParams"
    by (simp_all add: testParams_def)
  have a: "activeSetR (applyRigidity tinyGraph tinyScores testParams) = [''n002'']"
    by (simp add: applyRigidity_activeSet testParams_def geqProp_def tinyGraph_def tinyScores_def)
  have b: "map idN (nodes (keptGraph (applyRigidity tinyGraph tinyScores testParams))) =
      [''n001'', ''n002'']"
    by (simp add: applyRigidity_keptNodes testParams_def geqProp_def tinyGraph_def tinyScores_def)
  have sub: "set (activeSetR (applyRigidity tinyGraph tinyScores testParams)) \<subseteq>
     idN ` set (nodes (keptGraph (applyRigidity tinyGraph tinyScores testParams)))"
    using activeSet_subset_keptNodes [OF h1 h2, of tinyGraph tinyScores] by blast
  show ?thesis
    by (intro conjI h1 h2 sub a b)
qed

section \<open>beamReconstruct\<close>

lemma expandBeam_extend:
  "expandBeam adjacency scores beam =
     (if nodePath beam = [] then []
      else concat (map (\<lambda>edge. if neighborVia beam edge \<in> set (nodePath beam) then []
                                 else [extendBeam scores beam edge])
                    (getAdj adjacency (last (nodePath beam)))))"
  by (simp add: expandBeam_def Let_def neighborVia_def extendBeam_def cong: if_cong)

lemma concat_map_if_filter:
  "concat (map (\<lambda>x. if P x then [] else [f x]) xs) = map f (filter (\<lambda>x. \<not> P x) xs)"
  by (induction xs) simp_all

lemma expandBeam_eq:
  "expandBeam (makeAdjacency es) scores beam =
     (if nodePath beam = [] then []
      else map (extendBeam scores beam)
             (filter (\<lambda>edge. neighborVia beam edge \<notin> set (nodePath beam))
                (concat (map (incidentTo (last (nodePath beam))) es))))"
  by (simp only: expandBeam_extend concat_map_if_filter getAdj_makeAdjacency)

lemma expandAll_eq:
  "expandAll (makeAdjacency es) scores beams =
     concat (map (\<lambda>beam.
       if nodePath beam = [] then []
       else map (extendBeam scores beam)
              (filter (\<lambda>edge. neighborVia beam edge \<notin> set (nodePath beam))
                 (concat (map (incidentTo (last (nodePath beam))) es)))) beams)"
proof -
  have "expandBeam (makeAdjacency es) scores =
        (\<lambda>beam. if nodePath beam = [] then []
           else map (extendBeam scores beam)
              (filter (\<lambda>edge. neighborVia beam edge \<notin> set (nodePath beam))
                 (concat (map (incidentTo (last (nodePath beam))) es))))"
    by (rule ext) (rule expandBeam_eq)
  then show ?thesis
    by (simp only: expandAll_def)
qed

lemma set_expandAll:
  "set (expandAll (makeAdjacency es) scores beams) =
     {extendBeam scores beam edge | beam edge.
        beam \<in> set beams \<and> edge \<in> set es \<and> nodePath beam \<noteq> [] \<and>
        (source edge = last (nodePath beam) \<or> target edge = last (nodePath beam)) \<and>
        neighborVia beam edge \<notin> set (nodePath beam)}"
  by (auto simp: expandAll_eq incidentTo_def split: if_splits)



lemma beamLoop_3: "beamLoop adjacency scores bw (Suc (Suc (Suc 0))) beams = beams"
  by (subst beamLoop.simps) simp

lemma beamLoop_2:
  "beamLoop adjacency scores bw (Suc (Suc 0)) beams =
     (if expandAll adjacency scores beams = [] then beams
      else take bw (sortExpansions (expandAll adjacency scores beams)))"
  by (subst beamLoop.simps) (simp add: Let_def beamLoop_3)

lemma beamLoop_1:
  "beamLoop adjacency scores bw (Suc 0) beams =
     (if expandAll adjacency scores beams = [] then beams
      else beamLoop adjacency scores bw (Suc (Suc 0))
             (take bw (sortExpansions (expandAll adjacency scores beams))))"
  by (subst beamLoop.simps) (simp add: Let_def)

lemma beamLoop_0:
  "beamLoop adjacency scores bw 0 beams =
     (if expandAll adjacency scores beams = [] then beams
      else beamLoop adjacency scores bw (Suc 0)
             (take bw (sortExpansions (expandAll adjacency scores beams))))"
  by (subst beamLoop.simps) (simp add: Let_def)

lemma beamReconstruct_unroll:
  "beamReconstruct g scores active bw =
     (let adjacency = makeAdjacency (edges g);
          b0 = seedBeams scores (beamSeeds g active)
      in if expandAll adjacency scores b0 = [] then b0
         else let b1 = beamRound g scores bw b0
              in if expandAll adjacency scores b1 = [] then b1
                 else let b2 = beamRound g scores bw b1
                      in if expandAll adjacency scores b2 = [] then b2
                         else beamRound g scores bw b2)"
  by (simp add: beamReconstruct_def Let_def beamRound_def beamLoop_0 beamLoop_1 beamLoop_2)

lemma set_beamRound:
  "set (beamRound g scores bw beams) \<subseteq> set (expandAll (makeAdjacency (edges g)) scores beams)"
  unfolding beamRound_def using set_take_subset [of bw] by (fastforce simp: sortExpansions_def)

lemma length_beamRound:
  "length (beamRound g scores bw beams) =
     min bw (length (expandAll (makeAdjacency (edges g)) scores beams))"
  by (simp add: beamRound_def sortExpansions_def min.commute)

lemma expandAll_inv:
  assumes "\<forall>b \<in> set beams. P b"
    and "\<And>b edge. P b \<Longrightarrow> nodePath b \<noteq> [] \<Longrightarrow> Q (extendBeam scores b edge)"
  shows "\<forall>c \<in> set (expandAll adjacency scores beams). Q c"
  using assms by (auto simp: expandAll_def expandBeam_extend split: if_splits)

lemma beamRound_inv:
  assumes "\<forall>b \<in> set beams. P b"
    and "\<And>b edge. P b \<Longrightarrow> nodePath b \<noteq> [] \<Longrightarrow> Q (extendBeam scores b edge)"
  shows "\<forall>c \<in> set (beamRound g scores bw beams). Q c"
  using expandAll_inv [where beams = beams and P = P and Q = Q, OF assms] set_beamRound by blast

lemma beamReconstruct_cases:
  assumes "P (seedBeams scores (beamSeeds g active))"
    and "P (beamRound g scores bw (seedBeams scores (beamSeeds g active)))"
    and "P (beamRound g scores bw (beamRound g scores bw (seedBeams scores (beamSeeds g active))))"
    and "P (beamRound g scores bw (beamRound g scores bw
             (beamRound g scores bw (seedBeams scores (beamSeeds g active)))))"
  shows "P (beamReconstruct g scores active bw)"
  using assms by (simp add: beamReconstruct_unroll Let_def)






lemmas beam_eval = expandAll_eq incidentTo_def tinyGraph_def tinyScores_def extendBeam_def
  neighborVia_def getOr0_def round3_def Math_round_def

lemma tiny_seed: "seedBeams tinyScores (beamSeeds tinyGraph [''n002'']) =
    [\<lparr>nodePath = [''n002''], edgePath = [], score = 7 / 10\<rparr>]"
  by (simp add: seedBeams_def beamSeeds_def tinyScores_def getOr0_def)

lemma tiny_e0: "expandAll (makeAdjacency (edges tinyGraph)) tinyScores
    [\<lparr>nodePath = [''n002''], edgePath = [], score = 7 / 10\<rparr>] =
    [\<lparr>nodePath = [''n002'', ''n001''], edgePath = [''n001->n002''], score = 9 / 5\<rparr>]"
  by (simp add: beam_eval)





lemma hd_rounds:
  fixes g scores bw active
  defines "b0 \<equiv> seedBeams scores (beamSeeds g active)"
  defines "P \<equiv> \<lambda>c. nodePath c \<noteq> [] \<and> hd (nodePath c) \<in> set (beamSeeds g active)"
  shows "\<forall>c \<in> set b0. P c"
    and "\<forall>c \<in> set (beamRound g scores bw b0). P c"
    and "\<forall>c \<in> set (beamRound g scores bw (beamRound g scores bw b0)). P c"
    and "\<forall>c \<in> set (beamRound g scores bw (beamRound g scores bw (beamRound g scores bw b0))). P c"
proof -
  have ext: "\<And>b edge. P b \<Longrightarrow> nodePath b \<noteq> [] \<Longrightarrow> P (extendBeam scores b edge)"
    by (simp add: P_def extendBeam_def)
  show 0: "\<forall>c \<in> set b0. P c"
    by (auto simp: b0_def P_def seedBeams_def)
  show 1: "\<forall>c \<in> set (beamRound g scores bw b0). P c"
    by (rule beamRound_inv [where P = P and Q = P, OF 0 ext])
  show 2: "\<forall>c \<in> set (beamRound g scores bw (beamRound g scores bw b0)). P c"
    by (rule beamRound_inv [where P = P and Q = P, OF 1 ext])
  show "\<forall>c \<in> set (beamRound g scores bw (beamRound g scores bw (beamRound g scores bw b0))). P c"
    by (rule beamRound_inv [where P = P and Q = P, OF 2 ext])
qed

lemma beamReconstruct_rooted:
  "\<forall>c \<in> set (beamReconstruct g scores active bw).
      nodePath c \<noteq> [] \<and> hd (nodePath c) \<in> set (beamSeeds g active)"
  by (rule beamReconstruct_cases) (rule hd_rounds)+

lemma beamRound_nonempty:
  "0 < bw \<Longrightarrow> expandAll (makeAdjacency (edges g)) scores beams \<noteq> [] \<Longrightarrow>
   beamRound g scores bw beams \<noteq> []"
proof -
  assume "0 < bw" and "expandAll (makeAdjacency (edges g)) scores beams \<noteq> []"
  then have "0 < min bw (length (expandAll (makeAdjacency (edges g)) scores beams))"
    by simp
  then have "0 < length (beamRound g scores bw beams)"
    by (simp only: length_beamRound)
  then show ?thesis by auto
qed

lemma beamReconstruct_empty_iff:
  assumes "0 < bw"
  shows "beamReconstruct g scores active bw = [] \<longleftrightarrow> beamSeeds g active = []"
proof (cases "beamSeeds g active = []")
  case True
  then show ?thesis
    by (simp add: beamReconstruct_unroll Let_def seedBeams_def expandAll_def)
next
  case False
  then have "seedBeams scores (beamSeeds g active) \<noteq> []"
    by (simp add: seedBeams_def)
  then have "beamReconstruct g scores active bw \<noteq> []"
    using beamRound_nonempty [OF assms, of g scores]
    by (simp add: beamReconstruct_unroll Let_def)
  with False show ?thesis by simp
qed

lemma map_of_fold_update:
  "map_of (fold (\<lambda>x acc. AList.update (k x) (f x) acc) xs acc) =
     fold (\<lambda>x m. m(k x \<mapsto> f x)) xs (map_of acc)"
  by (induction xs arbitrary: acc) (simp_all add: update_conv')

lemma dom_fold_upd:
  "dom (fold (\<lambda>x m. m(k x \<mapsto> f x)) xs m) = dom m \<union> k ` set xs"
  by (induction xs arbitrary: m) auto

lemma dom_activationScores:
  "dom (map_of (activationScores g ctx p)) = idN ` set (nodes g)"
  by (simp add: activationScores_def Let_def map_of_fold_update dom_fold_upd)

lemma beamSeeds_subset:
  "set (beamSeeds (keptGraph (applyRigidity g scores p)) (activeSetR (applyRigidity g scores p)))
     \<subseteq> idN ` set (nodes g)"
proof -
  have "set (take n (nodes (keptGraph (applyRigidity g scores p)))) \<subseteq> set (nodes g)" for n
    using set_take_subset [of n "nodes (keptGraph (applyRigidity g scores p))"]
    by (auto simp: applyRigidity_keptNodes)
  then show ?thesis
    by (auto simp: beamSeeds_def applyRigidity_activeSet)
qed

lemma seeds_scored:
  "\<forall>sd \<in> set (beamSeeds (keptGraph (applyRigidity g (activationScores g ctx p) p))
                  (activeSetR (applyRigidity g (activationScores g ctx p) p))).
      map_of (activationScores g ctx p) sd = Some (getOr0 (activationScores g ctx p) sd)"
proof
  fix sd
  assume "sd \<in> set (beamSeeds (keptGraph (applyRigidity g (activationScores g ctx p) p))
                  (activeSetR (applyRigidity g (activationScores g ctx p) p)))"
  then have "sd \<in> dom (map_of (activationScores g ctx p))"
    using beamSeeds_subset [of g "activationScores g ctx p" p]
    by (auto simp: dom_activationScores)
  then show "map_of (activationScores g ctx p) sd = Some (getOr0 (activationScores g ctx p) sd)"
    by (auto simp: getOr0_def)
qed

text \<open>
  C8. With an empty active set the seeds are the identifiers of the first
  \<open>min 3 (number of nodes)\<close> nodes of the pruned graph, in graph order; with a non-empty
  active set they are the active set. Each seed starts as a one-node candidate with no edge
  and the seed's score. The function has no failing path: every returned candidate is
  rooted at a seed, the result is empty only if there is no seed (for a positive beam
  width), and in a step of the pipeline every seed has an entry in the score map, so its
  score is its activation score.
\<close>

theorem beamSeeds_fallback:
  "(active = [] \<longrightarrow>
      beamSeeds g active = map idN (take (min 3 (length (nodes g))) (nodes g)) \<and>
      length (beamSeeds g active) = min 3 (length (nodes g))) \<and>
   (active \<noteq> [] \<longrightarrow> beamSeeds g active = active) \<and>
   seedBeams scores (beamSeeds g active) =
     map (\<lambda>sd. \<lparr>nodePath = [sd], edgePath = [], score = getOr0 scores sd\<rparr>) (beamSeeds g active) \<and>
   (\<forall>c \<in> set (beamReconstruct g scores active bw).
      nodePath c \<noteq> [] \<and> hd (nodePath c) \<in> set (beamSeeds g active)) \<and>
   (0 < bw \<longrightarrow> (beamReconstruct g scores active bw = [] \<longleftrightarrow> beamSeeds g active = [])) \<and>
   (\<forall>sd \<in> set (beamSeeds (keptGraph (applyRigidity g (activationScores g ctx p) p))
                  (activeSetR (applyRigidity g (activationScores g ctx p) p))).
      map_of (activationScores g ctx p) sd = Some (getOr0 (activationScores g ctx p) sd))"
  using beamReconstruct_rooted [of g scores active bw] seeds_scored [of g ctx p]
    beamReconstruct_empty_iff [of bw g scores active]
  by (simp add: beamSeeds_def seedBeams_def)

theorem beamSeeds_fallback_witness:
  "beamSeeds tinyGraph [] = [''n000'', ''n001'', ''n002''] \<and>
   length (beamSeeds tinyGraph []) = min 3 (length (nodes tinyGraph)) \<and>
   (0::nat) < 4 \<and>
   beamReconstruct tinyGraph tinyScores [] 4 \<noteq> []"
proof -
  note t = beamSeeds_fallback [where g = tinyGraph and active = "[]" and scores = tinyScores
      and bw = 4]
  have a: "beamSeeds tinyGraph [] = map idN (take (min 3 (length (nodes tinyGraph))) (nodes tinyGraph))"
    and b: "length (beamSeeds tinyGraph []) = min 3 (length (nodes tinyGraph))"
    using t by blast+
  have c: "beamSeeds tinyGraph [] = [''n000'', ''n001'', ''n002'']"
    using a by (simp add: tinyGraph_def)
  have d: "(0::nat) < 4" by simp
  have "beamReconstruct tinyGraph tinyScores [] 4 = [] \<longleftrightarrow> beamSeeds tinyGraph [] = []"
    using t d by blast
  then have e: "beamReconstruct tinyGraph tinyScores [] 4 \<noteq> []"
    using c by simp
  show ?thesis
    by (intro conjI c b d e)
qed

lemma no_incident_no_expansion:
  assumes "\<forall>edge \<in> set (edges g). source edge \<notin> set seeds \<and> target edge \<notin> set seeds"
  shows "expandAll (makeAdjacency (edges g)) scores (seedBeams scores seeds) = []"
proof -
  have "set (expandAll (makeAdjacency (edges g)) scores (seedBeams scores seeds)) = {}"
    unfolding set_expandAll using assms by (auto simp: seedBeams_def)
  then show ?thesis by simp
qed

lemma beamReconstruct_length_le:
  "expandAll (makeAdjacency (edges g)) scores (seedBeams scores (beamSeeds g active)) \<noteq> [] \<Longrightarrow>
   length (beamReconstruct g scores active bw) \<le> bw"
  by (simp add: beamReconstruct_unroll Let_def length_beamRound)

lemma isolated_beams:
  "expandAll (makeAdjacency (edges isolatedGraph)) tinyScores
     (seedBeams tinyScores (beamSeeds isolatedGraph [''n000'', ''n001'', ''n002''])) = [] \<and>
   1 < length (beamReconstruct isolatedGraph tinyScores [''n000'', ''n001'', ''n002''] 1)"
proof -
  have "expandAll (makeAdjacency (edges isolatedGraph)) tinyScores
     (seedBeams tinyScores (beamSeeds isolatedGraph [''n000'', ''n001'', ''n002''])) = []"
    by (rule no_incident_no_expansion) (simp add: isolatedGraph_def)
  then show ?thesis
    by (simp add: beamReconstruct_unroll Let_def seedBeams_def beamSeeds_def)
qed

text \<open>
  C10. If the first round has no expansion (as when no edge of the graph touches a seed),
  the result is the initial seed list, one candidate per seed, whatever the beam width: its
  length can exceed the beam width. If the first round has an expansion, the result has at
  most \<open>beamWidth\<close> candidates.
\<close>

theorem beamReconstruct_no_expansion:
  "(expandAll (makeAdjacency (edges g)) scores (seedBeams scores (beamSeeds g active)) = [] \<longrightarrow>
      beamReconstruct g scores active bw = seedBeams scores (beamSeeds g active) \<and>
      length (beamReconstruct g scores active bw) = length (beamSeeds g active)) \<and>
   ((\<forall>edge \<in> set (edges g). source edge \<notin> set (beamSeeds g active) \<and>
                             target edge \<notin> set (beamSeeds g active)) \<longrightarrow>
      expandAll (makeAdjacency (edges g)) scores (seedBeams scores (beamSeeds g active)) = []) \<and>
   (expandAll (makeAdjacency (edges g)) scores (seedBeams scores (beamSeeds g active)) \<noteq> [] \<longrightarrow>
      length (beamReconstruct g scores active bw) \<le> bw) \<and>
   (\<exists>g' scores' active' bw'.
      expandAll (makeAdjacency (edges g')) scores' (seedBeams scores' (beamSeeds g' active')) = [] \<and>
      bw' < length (beamReconstruct g' scores' active' bw'))"
proof (intro conjI impI)
  assume "expandAll (makeAdjacency (edges g)) scores (seedBeams scores (beamSeeds g active)) = []"
  then show "beamReconstruct g scores active bw = seedBeams scores (beamSeeds g active)"
    by (simp add: beamReconstruct_unroll Let_def)
  then show "length (beamReconstruct g scores active bw) = length (beamSeeds g active)"
    by (simp add: seedBeams_def)
next
  assume "\<forall>edge \<in> set (edges g). source edge \<notin> set (beamSeeds g active) \<and>
                             target edge \<notin> set (beamSeeds g active)"
  then show "expandAll (makeAdjacency (edges g)) scores (seedBeams scores (beamSeeds g active)) = []"
    by (rule no_incident_no_expansion)
next
  assume "expandAll (makeAdjacency (edges g)) scores (seedBeams scores (beamSeeds g active)) \<noteq> []"
  then show "length (beamReconstruct g scores active bw) \<le> bw"
    by (rule beamReconstruct_length_le)
next
  show "\<exists>g' scores' active' bw'.
      expandAll (makeAdjacency (edges g')) scores' (seedBeams scores' (beamSeeds g' active')) = [] \<and>
      bw' < length (beamReconstruct g' scores' active' bw')"
    using isolated_beams by blast
qed

theorem beamReconstruct_no_expansion_witness:
  "expandAll (makeAdjacency (edges isolatedGraph)) tinyScores
     (seedBeams tinyScores (beamSeeds isolatedGraph [''n000'', ''n001'', ''n002''])) = [] \<and>
   beamReconstruct isolatedGraph tinyScores [''n000'', ''n001'', ''n002''] 1 =
     seedBeams tinyScores (beamSeeds isolatedGraph [''n000'', ''n001'', ''n002'']) \<and>
   length (beamReconstruct isolatedGraph tinyScores [''n000'', ''n001'', ''n002''] 1) = 3 \<and>
   expandAll (makeAdjacency (edges tinyGraph)) tinyScores
     (seedBeams tinyScores (beamSeeds tinyGraph [''n002''])) \<noteq> [] \<and>
   length (beamReconstruct tinyGraph tinyScores [''n002''] 1) \<le> 1"
proof -
  note t = beamReconstruct_no_expansion [where g = isolatedGraph and scores = tinyScores
      and active = "[''n000'', ''n001'', ''n002'']" and bw = 1]
  note u = beamReconstruct_no_expansion [where g = tinyGraph and scores = tinyScores
      and active = "[''n002'']" and bw = 1]
  have a: "expandAll (makeAdjacency (edges isolatedGraph)) tinyScores
     (seedBeams tinyScores (beamSeeds isolatedGraph [''n000'', ''n001'', ''n002''])) = []"
    using isolated_beams by blast
  have b: "beamReconstruct isolatedGraph tinyScores [''n000'', ''n001'', ''n002''] 1 =
     seedBeams tinyScores (beamSeeds isolatedGraph [''n000'', ''n001'', ''n002''])"
    using t a by blast
  have "length (beamReconstruct isolatedGraph tinyScores [''n000'', ''n001'', ''n002''] 1) =
        length (beamSeeds isolatedGraph [''n000'', ''n001'', ''n002''])"
    using t a by blast
  then have c: "length (beamReconstruct isolatedGraph tinyScores [''n000'', ''n001'', ''n002''] 1) = 3"
    by (simp add: beamSeeds_def)
  have d: "expandAll (makeAdjacency (edges tinyGraph)) tinyScores
     (seedBeams tinyScores (beamSeeds tinyGraph [''n002''])) \<noteq> []"
    by (simp add: tiny_seed tiny_e0)
  have e: "length (beamReconstruct tinyGraph tinyScores [''n002''] 1) \<le> 1"
    using u d by blast
  show ?thesis
    by (intro conjI a b c d e)
qed

section \<open>l2Distance and the stored delta\<close>

lemma Set_of_fold:
  "distinct acc \<Longrightarrow>
   distinct (fold (\<lambda>x acc. if x \<in> set acc then acc else acc @ [x]) xs acc) \<and>
   set (fold (\<lambda>x acc. if x \<in> set acc then acc else acc @ [x]) xs acc) = set acc \<union> set xs"
  by (induction xs arbitrary: acc) auto

lemma Set_of_distinct: "distinct (Set_of xs)" and Set_of_set: "set (Set_of xs) = set xs"
  using Set_of_fold [of "[]" xs] by (simp_all add: Set_of_def)

lemma fold_add: "fold (\<lambda>key sm. sm + f key) keys (s0 :: real) = s0 + sum_list (map f keys)"
  by (induction keys arbitrary: s0) simp_all

lemma l2Distance_spec: "l2Distance a b = l2_spec a b"
proof -
  let ?f = "\<lambda>key. (getOr0 a key - getOr0 b key) * (getOr0 a key - getOr0 b key)"
  let ?keys = "Set_of (Object_keys a @ Object_keys b)"
  have "l2Distance a b = sqrt (sum_list (map ?f ?keys))"
    by (simp add: l2Distance_def Let_def fold_add)
  also have "sum_list (map ?f ?keys) = sum ?f (set ?keys)"
    by (rule sum_list_distinct_conv_sum_set) (rule Set_of_distinct)
  finally show ?thesis
    by (simp add: l2_spec_def Set_of_set power2_eq_square)
qed

lemma l2_spec_nonneg: "0 \<le> l2_spec a b"
  by (simp add: l2_spec_def sum_nonneg)

lemma toFixed3_rounded: "0 \<le> x \<Longrightarrow> toFixed3 x = rounded3 x"
  by (simp add: toFixed3_def rounded3_def round_def)

lemma stepLogAt_delta:
  "delta (stepLogAt p k) =
     (if k = 0 then 0 else rounded3 (l2_spec (scoresAt p (k - 1)) (scoresAt p k)))"
  by (simp add: stepLogAt_def stepLog_def Let_def previousAt_def l2Distance_spec
        toFixed3_rounded l2_spec_nonneg)

lemma stepLogAt_activationVector: "activationVector (stepLogAt p k) = scoresAt p k"
  by (simp add: stepLogAt_def stepLog_def Let_def)

lemma rounded3_near: "\<bar>rounded3 x - x\<bar> \<le> 1 / 2000"
proof -
  have "\<bar>of_int (round (x * 1000)) - x * 1000\<bar> \<le> 1 / 2"
    by (rule of_int_round_abs_le)
  then show ?thesis
    by (simp add: rounded3_def field_simps abs_if split: if_splits)
qed

section \<open>The generator and the drift: ranges, identifiers, keys\<close>

lemma nat_div_range:
  "n < 2 ^ 32 \<Longrightarrow> 0 \<le> real n / 4294967296 \<and> real n / 4294967296 < 1"
  by simp

lemma unat_div_range:
  "0 \<le> real (unat (w :: 32 word)) / 4294967296 \<and> real (unat w) / 4294967296 < 1"
proof (rule nat_div_range)
  show "unat w < 2 ^ 32"
    using unsigned_less [of w] by simp
qed

lemma rng_next_range: "0 \<le> snd (rng_next s) \<and> snd (rng_next s) < 1"
  unfolding rng_next_def Let_def snd_conv by (rule unat_div_range)

lemma in01_round3: "in01 x \<Longrightarrow> in01 (round3 x)"
proof -
  assume "in01 x"
  then have x: "0 \<le> x" "x \<le> 1" by (simp_all add: in01_def)
  have "(0 :: int) \<le> \<lfloor>x * 1000 + 1 / 2\<rfloor>"
    using x by (simp add: zero_le_floor)
  moreover have "\<lfloor>x * 1000 + 1 / 2\<rfloor> \<le> (1000 :: int)"
    using x by (simp add: floor_le_iff)
  ultimately show ?thesis
    by (simp add: in01_def round3_def Math_round_def)
qed

lemma in01_clamp01: "in01 (clamp01 x)"
  by (simp add: in01_def clamp01_def)

lemma set_update_subset: "set (AList.update k v al) \<subseteq> insert (k, v) (set al)"
  by (induction al) auto

lemma genEdgeStep_cases:
  "genEdgeStep density ns i j (rng, es) = (rng', es') \<Longrightarrow>
   es' = es \<or>
   (\<exists>w. in01 w \<and> es' = es @ [\<lparr>idE = idN (ns ! i) @ ''->'' @ idN (ns ! j),
                              source = idN (ns ! i), target = idN (ns ! j),
                              weight = w, priorE = (priorN (ns ! i) \<and> priorN (ns ! j))\<rparr>])"
proof -
  assume a: "genEdgeStep density ns i j (rng, es) = (rng', es')"
  have "in01 (round3 (0.2 + r * 0.8))" if "0 \<le> r \<and> r < 1" for r :: real
    using that by (intro in01_round3) (simp add: in01_def)
  then have "in01 (round3 (0.2 + r * 0.8))" if "rng_next s = (s', r)" for s s' r
    using rng_next_range [of s] that by simp
  then show ?thesis
    using a by (auto simp: genEdgeStep_def Let_def split: prod.splits if_splits)
qed

lemma fold_concat_list: "fold f (concat xss) s = fold (fold f) xss s"
  by (induction xss arbitrary: s) simp_all

lemma genEdges_flat:
  "genEdges density ns rng =
     fold (\<lambda>(i, j). genEdgeStep density ns i j) (pairsOf (length ns)) (rng, [])"
proof -
  have "fold (\<lambda>j. genEdgeStep density ns i j) js =
        fold (\<lambda>(i, j). genEdgeStep density ns i j) (map (Pair i) js)" for i js
    by (simp add: fold_map comp_def)
  then show ?thesis
    by (simp add: genEdges_def pairsOf_def fold_concat_list fold_map comp_def)
qed

lemma genEdgeStep_edge:
  "genEdgeStep density ns i j (rng, es) = (rng', es') \<Longrightarrow>
   es' = es \<or> (\<exists>w. in01 w \<and> es' = es @ [edgeBetween ns i j w])"
  unfolding edgeBetween_def by (rule genEdgeStep_cases)

lemma genEdges_fold_shape:
  "distinct ps \<Longrightarrow>
   fold (\<lambda>(i, j). genEdgeStep density ns i j) ps (rng, es) = (rng', es') \<Longrightarrow>
   \<exists>qs ws. distinct qs \<and> set qs \<subseteq> set ps \<and> length ws = length qs \<and> list_all in01 ws \<and>
     es' = es @ map (\<lambda>((i, j), w). edgeBetween ns i j w) (zip qs ws)"
proof (induction ps arbitrary: rng es)
  case Nil
  then have "es' = es @ map (\<lambda>((i, j), w). edgeBetween ns i j w) (zip [] [])"
    by simp
  then show ?case
    by (intro exI [of _ "[]"]) simp
next
  case (Cons p ps)
  obtain i j where p: "p = (i, j)" by (cases p)
  obtain rng1 es1 where step: "genEdgeStep density ns i j (rng, es) = (rng1, es1)"
    by (cases "genEdgeStep density ns i j (rng, es)")
  from Cons.prems have d: "distinct ps" and notin: "p \<notin> set ps"
    by simp_all
  from Cons.prems(2) have "fold (\<lambda>(i, j). genEdgeStep density ns i j) ps (rng1, es1) = (rng', es')"
    by (simp add: p step)
  from Cons.IH [OF d this] obtain qs ws where
    qs: "distinct qs" "set qs \<subseteq> set ps" "length ws = length qs" "list_all in01 ws"
      "es' = es1 @ map (\<lambda>((i, j), w). edgeBetween ns i j w) (zip qs ws)"
    by blast
  from genEdgeStep_edge [OF step]
  show ?case
  proof
    assume "es1 = es"
    with qs show ?thesis
      by (intro exI [of _ qs] exI [of _ ws]) auto
  next
    assume "\<exists>w. in01 w \<and> es1 = es @ [edgeBetween ns i j w]"
    then obtain w where w: "in01 w" "es1 = es @ [edgeBetween ns i j w]"
      by blast
    with qs notin p show ?thesis
      by (intro exI [of _ "p # qs"] exI [of _ "w # ws"]) auto
  qed
qed

lemma pairsOf_set: "set (pairsOf n) = {(i, j). i < j \<and> j < n}"
proof -
  have "(a, b) \<in> set (pairsOf n)" if "a < b" "b < n" for a b
  proof -
    have "map (Pair a) [a + 1..<n] \<in> set (map (\<lambda>i. map (Pair i) [i + 1..<n]) [0..<n])"
      unfolding set_map using that by (intro rev_image_eqI [of a]) simp_all
    moreover have "(a, b) \<in> set (map (Pair a) [a + 1..<n])"
      using that by auto
    ultimately show ?thesis
      unfolding pairsOf_def set_concat by blast
  qed
  moreover have "a < b \<and> b < n" if "(a, b) \<in> set (pairsOf n)" for a b
    using that by (auto simp: pairsOf_def)
  ultimately show ?thesis by auto
qed

lemma pairsOf_distinct: "distinct (pairsOf n)"
  unfolding pairsOf_def
proof (rule distinct_concat)
  have "x = y" if "x < n" "y < n" "map (Pair x) [x + 1..<n] = map (Pair y) [y + 1..<n]" for x y
  proof -
    have "length (map (Pair x) [x + 1..<n]) = length (map (Pair y) [y + 1..<n])"
      using that(3) by simp
    then show ?thesis using that(1,2) by simp
  qed
  then show "distinct (map (\<lambda>i. map (Pair i) [i + 1..<n]) [0..<n])"
    by (auto simp: distinct_map inj_on_def)
next
  fix ys assume "ys \<in> set (map (\<lambda>i. map (Pair i) [i + 1..<n]) [0..<n])"
  then show "distinct ys"
    by (auto simp: distinct_map inj_on_def)
next
  fix ys zs
  assume "ys \<in> set (map (\<lambda>i. map (Pair i) [i + 1..<n]) [0..<n])"
    and "zs \<in> set (map (\<lambda>i. map (Pair i) [i + 1..<n]) [0..<n])" and "ys \<noteq> zs"
  then show "set ys \<inter> set zs = {}"
    by auto
qed

lemma digitChar_value: "d < 10 \<Longrightarrow> (of_char (digitChar d) :: nat) - 48 = d"
proof -
  have "list_all (\<lambda>d. (of_char (digitChar d) :: nat) - 48 = d) [0..<10]"
    by code_simp
  moreover assume "d < 10"
  ultimately show ?thesis
    by (simp add: list_all_iff)
qed

lemma digitChar_not_dash: "d < 10 \<Longrightarrow> digitChar d \<noteq> CHR ''-''"
proof -
  have "list_all (\<lambda>d. digitChar d \<noteq> CHR ''-'') [0..<10]"
    by code_simp
  moreover assume "d < 10"
  ultimately show ?thesis
    by (simp add: list_all_iff)
qed

lemma digitsValue_snoc: "digitsValue (s @ [c]) = 10 * digitsValue s + (of_char c - 48)"
  by (simp add: digitsValue_def)

lemma digitsValue_toString: "digitsValue (toStringRadix 10 n) = n"
proof (induction n rule: less_induct)
  case (less n)
  show ?case
  proof (cases "n < 10")
    case True
    then show ?thesis
      by (simp add: toStringRadix.simps digitsValue_def digitChar_value)
  next
    case False
    then have "digitsValue (toStringRadix 10 (n div 10)) = n div 10"
      by (intro less.IH) simp
    then show ?thesis
      using False
      by (subst toStringRadix.simps) (simp add: digitsValue_snoc digitChar_value)
  qed
qed

lemma digitsValue_zeros: "digitsValue (replicate k (CHR ''0'') @ s) = digitsValue s"
proof -
  have "foldl (\<lambda>a c. 10 * a + (of_char c - 48)) 0 (replicate k (CHR ''0'')) = (0 :: nat)"
    by (induction k) simp_all
  then show ?thesis
    by (simp add: digitsValue_def)
qed

lemma digitsValue_makeNodeId: "digitsValue (tl (makeNodeId i)) = i"
  by (simp add: makeNodeId_def padStart_def digitsValue_zeros digitsValue_toString)

lemma makeNodeId_inj: "makeNodeId i = makeNodeId j \<Longrightarrow> i = j"
  by (metis digitsValue_makeNodeId)

lemma toString10_no_dash: "CHR ''-'' \<notin> set (toStringRadix 10 n)"
proof (induction n rule: less_induct)
  case (less n)
  show ?case
  proof (cases "n < 10")
    case True
    then show ?thesis
      using digitChar_not_dash [of n] by (simp add: toStringRadix.simps)
  next
    case False
    then have "CHR ''-'' \<notin> set (toStringRadix 10 (n div 10))"
      by (intro less.IH) simp
    then show ?thesis
      using False digitChar_not_dash [of "n mod 10"]
      by (subst toStringRadix.simps) simp
  qed
qed

lemma makeNodeId_no_dash: "CHR ''-'' \<notin> set (makeNodeId i)"
  using toString10_no_dash [of i] by (auto simp: makeNodeId_def padStart_def)

lemma split_at_first:
  "c \<notin> set xs \<Longrightarrow> c \<notin> set xs' \<Longrightarrow> xs @ c # ys = xs' @ c # ys' \<Longrightarrow> xs = xs' \<and> ys = ys'"
proof (induction xs arbitrary: xs')
  case Nil
  then show ?case by (cases xs') auto
next
  case (Cons x xs)
  then show ?case by (cases xs') auto
qed

lemma edge_id_inj:
  "makeNodeId i @ ''->'' @ makeNodeId j = makeNodeId i' @ ''->'' @ makeNodeId j' \<Longrightarrow>
   i = i' \<and> j = j'"
proof -
  assume "makeNodeId i @ ''->'' @ makeNodeId j = makeNodeId i' @ ''->'' @ makeNodeId j'"
  then have "makeNodeId i @ CHR ''-'' # (CHR ''>'' # makeNodeId j) =
             makeNodeId i' @ CHR ''-'' # (CHR ''>'' # makeNodeId j')"
    by simp
  from split_at_first [OF makeNodeId_no_dash makeNodeId_no_dash this]
  show ?thesis
    by (auto dest: makeNodeId_inj)
qed

lemma genNodes_nth: "i < nodeCount p \<Longrightarrow> genNodes p ! i = genNode p i"
  by (simp add: genNodes_def)

lemma genNodes_length: "length (genNodes p) = nodeCount p"
  by (simp add: genNodes_def)

lemma genNodes_ids: "map idN (genNodes p) = map makeNodeId [0..<nodeCount p]"
  by (simp add: genNodes_def genNode_def comp_def)

lemma genNodes_distinct: "distinct (map idN (genNodes p))"
  unfolding genNodes_ids by (auto simp: distinct_map inj_on_def dest: makeNodeId_inj)

lemma edgeBetween_genNodes:
  assumes "i < j" "j < nodeCount p"
  shows "idE (edgeBetween (genNodes p) i j w) = makeNodeId i @ ''->'' @ makeNodeId j"
    and "source (edgeBetween (genNodes p) i j w) = makeNodeId i"
    and "target (edgeBetween (genNodes p) i j w) = makeNodeId j"
    and "weight (edgeBetween (genNodes p) i j w) = w"
  using assms by (simp_all add: edgeBetween_def genNodes_nth genNode_def)

lemma genEdges_shape:
  assumes "genEdges density (genNodes p) rng = (rng', es)"
  shows "\<exists>qs ws. distinct qs \<and> set qs \<subseteq> {(i, j). i < j \<and> j < nodeCount p} \<and>
           length ws = length qs \<and> list_all in01 ws \<and>
           es = map (\<lambda>((i, j), w). edgeBetween (genNodes p) i j w) (zip qs ws)"
  using genEdges_fold_shape [OF pairsOf_distinct, of density "genNodes p"
      "length (genNodes p)" rng "[]" rng' es] assms
  by (simp add: genEdges_flat pairsOf_set genNodes_length)

lemma genEdges_props:
  assumes "genEdges density (genNodes p) rng = (rng', es)"
  shows "distinct (map idE es)"
    and "\<forall>e \<in> set es. in01 (weight e) \<and> source e \<noteq> target e \<and>
           source e \<in> idN ` set (genNodes p) \<and> target e \<in> idN ` set (genNodes p)"
proof -
  from genEdges_shape [OF assms] obtain qs ws where
    qs: "distinct qs" "set qs \<subseteq> {(i, j). i < j \<and> j < nodeCount p}"
      "length ws = length qs" "list_all in01 ws"
      "es = map (\<lambda>((i, j), w). edgeBetween (genNodes p) i j w) (zip qs ws)"
    by blast
  have ids: "map idE es = map (\<lambda>(i, j). makeNodeId i @ ''->'' @ makeNodeId j) qs"
  proof -
    have "map idE es = map (\<lambda>((i, j), w). makeNodeId i @ ''->'' @ makeNodeId j) (zip qs ws)"
      unfolding qs(5) map_map
      by (rule map_cong [OF refl])
         (use qs(2) in \<open>auto dest!: set_zip_leftD simp: edgeBetween_genNodes\<close>)
    also have "\<dots> = map ((\<lambda>(i, j). makeNodeId i @ ''->'' @ makeNodeId j) \<circ> fst) (zip qs ws)"
      by (rule map_cong [OF refl]) auto
    also have "\<dots> = map (\<lambda>(i, j). makeNodeId i @ ''->'' @ makeNodeId j) qs"
      using qs(3) by (simp flip: map_map)
    finally show ?thesis .
  qed
  have "inj_on (\<lambda>(i, j). makeNodeId i @ ''->'' @ makeNodeId j) (set qs)"
  proof (rule inj_onI)
    fix x y
    assume "x \<in> set qs" "y \<in> set qs"
      and eq: "(case x of (i, j) \<Rightarrow> makeNodeId i @ ''->'' @ makeNodeId j) =
               (case y of (i, j) \<Rightarrow> makeNodeId i @ ''->'' @ makeNodeId j)"
    obtain i j i' j' where xy: "x = (i, j)" "y = (i', j')"
      by (cases x; cases y)
    from eq have "makeNodeId i @ ''->'' @ makeNodeId j = makeNodeId i' @ ''->'' @ makeNodeId j'"
      unfolding xy by simp
    then have "i = i' \<and> j = j'"
      by (rule edge_id_inj)
    then show "x = y"
      by (simp add: xy)
  qed
  with qs(1) show "distinct (map idE es)"
    by (simp add: ids distinct_map)
  show "\<forall>e \<in> set es. in01 (weight e) \<and> source e \<noteq> target e \<and>
           source e \<in> idN ` set (genNodes p) \<and> target e \<in> idN ` set (genNodes p)"
  proof
    fix e assume "e \<in> set es"
    then obtain i j w where e: "e = edgeBetween (genNodes p) i j w" "((i, j), w) \<in> set (zip qs ws)"
      unfolding qs(5) by auto
    then have ij: "i < j" "j < nodeCount p" and w: "in01 w"
      using qs(2,4) by (auto dest: set_zip_leftD set_zip_rightD simp: list_all_iff)
    have "makeNodeId i \<noteq> makeNodeId j"
      using ij(1) makeNodeId_inj [of i j] by auto
    moreover have "makeNodeId k \<in> idN ` set (genNodes p)" if "k < nodeCount p" for k
    proof -
      have "makeNodeId k \<in> set (map idN (genNodes p))"
        unfolding genNodes_ids using that by simp
      then show ?thesis by simp
    qed
    ultimately show "in01 (weight e) \<and> source e \<noteq> target e \<and>
           source e \<in> idN ` set (genNodes p) \<and> target e \<in> idN ` set (genNodes p)"
      using ij w by (simp add: e(1) edgeBetween_genNodes)
  qed
qed

lemma update_fresh: "k \<notin> fst ` set al \<Longrightarrow> AList.update k v al = al @ [(k, v)]"
  by (induction al) auto

lemma genContextStep_shape:
  "\<exists>rng' v. in01 v \<and> genContextStep node (rng, ctx) = (rng', AList.update (idN node) v ctx)"
proof -
  obtain rng1 r where r: "rng_next rng = (rng1, r)"
    by (cases "rng_next rng")
  then have "0 \<le> r \<and> r < 1"
    using rng_next_range [of rng] by simp
  then have v: "in01 (round3 ((if priorN node then 0.45 else 0.35) +
                           (if novelty node then 0.2 else 0) + r * 0.25))"
    by (intro in01_round3) (simp add: in01_def)
  have "genContextStep node (rng, ctx) =
          (rng1, AList.update (idN node)
             (round3 ((if priorN node then 0.45 else 0.35) +
                      (if novelty node then 0.2 else 0) + r * 0.25)) ctx)"
    by (simp add: genContextStep_def Let_def r)
  with v show ?thesis
    by blast
qed

lemma genContext_fold:
  "distinct (map idN ns) \<Longrightarrow> idN ` set ns \<inter> fst ` set ctx = {} \<Longrightarrow>
   \<forall>v \<in> snd ` set ctx. in01 v \<Longrightarrow>
   map fst (snd (fold genContextStep ns (rng, ctx))) = map fst ctx @ map idN ns \<and>
   (\<forall>v \<in> snd ` set (snd (fold genContextStep ns (rng, ctx))). in01 v)"
proof (induction ns arbitrary: rng ctx)
  case Nil
  then show ?case by simp
next
  case (Cons node ns)
  obtain rng' v where v: "in01 v"
      "genContextStep node (rng, ctx) = (rng', AList.update (idN node) v ctx)"
    using genContextStep_shape by blast
  have fresh: "idN node \<notin> fst ` set ctx"
    using Cons.prems(2) by auto
  then have upd: "AList.update (idN node) v ctx = ctx @ [(idN node, v)]"
    by (rule update_fresh)
  have "map fst (snd (fold genContextStep ns (rng', ctx @ [(idN node, v)]))) =
          map fst (ctx @ [(idN node, v)]) @ map idN ns \<and>
        (\<forall>v \<in> snd ` set (snd (fold genContextStep ns (rng', ctx @ [(idN node, v)]))). in01 v)"
  proof (rule Cons.IH)
    show "distinct (map idN ns)" using Cons.prems(1) by simp
    show "idN ` set ns \<inter> fst ` set (ctx @ [(idN node, v)]) = {}"
      using Cons.prems(1,2) by auto
    show "\<forall>v \<in> snd ` set (ctx @ [(idN node, v)]). in01 v"
      using Cons.prems(3) v(1) by auto
  qed
  then show ?case
    by (simp add: v(2) upd)
qed

lemma generateGraph_inv: "stateInv p (generateGraph sd p)"
proof -
  obtain rng1 es where es: "genEdges (edgeDensity p) (genNodes p) (createRng sd) = (rng1, es)"
    by (cases "genEdges (edgeDensity p) (genNodes p) (createRng sd)")
  obtain rng2 ctx where ctx: "fold genContextStep (genNodes p) (rng1, []) = (rng2, ctx)"
    by (cases "fold genContextStep (genNodes p) (rng1, [])")
  have g: "generateGraph sd p = (\<lparr>nodes = genNodes p, edges = es\<rparr>, ctx)"
    by (simp add: generateGraph_def Let_def es ctx)
  have "map fst ctx = map idN (genNodes p) \<and> (\<forall>v \<in> snd ` set ctx. in01 v)"
    using genContext_fold [OF genNodes_distinct, of p "[]" rng1] by (simp add: ctx)
  then show ?thesis
    using genEdges_props [OF es] by (simp add: stateInv_def g)
qed

lemma updateEdge_shape:
  "\<exists>rng' x. updateEdge scores p edge (rng, out) =
     (rng', out @ [edge\<lparr>weight := round3 (clamp01 x)\<rparr>])"
proof -
  obtain rng1 r where r: "rng_next rng = (rng1, r)"
    by (cases "rng_next rng")
  have "updateEdge scores p edge (rng, out) =
     (rng1, out @ [edge\<lparr>weight := round3 (clamp01
        (weight edge * (1 - weightLearningRate p) +
         (getOr0 scores (source edge) + getOr0 scores (target edge)) / 2 * weightLearningRate p +
         (if priorE edge then 0 else driftBias p) * 0.05 + (r - 0.5) * 0.02))\<rparr>])"
    by (simp add: updateEdge_def Let_def r)
  then show ?thesis
    by blast
qed

lemma map_zip_weight:
  "length xs = length es \<Longrightarrow> (\<And>edge w. f (edge\<lparr>weight := w\<rparr>) = f edge) \<Longrightarrow>
   map f (map (\<lambda>(edge, x). edge\<lparr>weight := h x\<rparr>) (zip es xs)) = map f es"
proof (induction es arbitrary: xs)
  case Nil
  show ?case by simp
next
  case (Cons e es)
  then show ?case by (cases xs) simp_all
qed

lemma updateWeights_fold:
  "\<exists>xs. length xs = length es \<and>
     snd (fold (updateEdge scores p) es (rng, out)) =
       out @ map (\<lambda>(edge, x). edge\<lparr>weight := round3 (clamp01 x)\<rparr>) (zip es xs)"
proof (induction es arbitrary: rng out)
  case Nil
  show ?case by simp
next
  case (Cons edge es)
  obtain rng' x where step: "updateEdge scores p edge (rng, out) =
     (rng', out @ [edge\<lparr>weight := round3 (clamp01 x)\<rparr>])"
    using updateEdge_shape by blast
  obtain xs where xs: "length xs = length es"
    "snd (fold (updateEdge scores p) es (rng', out @ [edge\<lparr>weight := round3 (clamp01 x)\<rparr>])) =
       (out @ [edge\<lparr>weight := round3 (clamp01 x)\<rparr>]) @
       map (\<lambda>(edge, x). edge\<lparr>weight := round3 (clamp01 x)\<rparr>) (zip es xs)"
    using Cons.IH by blast
  show ?case
    by (rule exI [of _ "x # xs"]) (simp add: step xs)
qed

lemma updateWeights_shape:
  "\<exists>xs. length xs = length (edges g) \<and>
     updateWeights g scores p stepSeed =
       g\<lparr>edges := map (\<lambda>(edge, x). edge\<lparr>weight := round3 (clamp01 x)\<rparr>) (zip (edges g) xs)\<rparr>"
  using updateWeights_fold [of "edges g" scores p "createRng stepSeed" "[]"]
  by (auto simp: updateWeights_def)

lemma updateWeights_props:
  "nodes (updateWeights g scores p stepSeed) = nodes g \<and>
   map idE (edges (updateWeights g scores p stepSeed)) = map idE (edges g) \<and>
   map source (edges (updateWeights g scores p stepSeed)) = map source (edges g) \<and>
   map target (edges (updateWeights g scores p stepSeed)) = map target (edges g) \<and>
   map priorE (edges (updateWeights g scores p stepSeed)) = map priorE (edges g) \<and>
   (\<forall>e \<in> set (edges (updateWeights g scores p stepSeed)).
      \<exists>x. weight e = round3 (clamp01 x))"
proof -
  obtain xs where xs: "length xs = length (edges g)"
    "updateWeights g scores p stepSeed =
       g\<lparr>edges := map (\<lambda>(edge, x). edge\<lparr>weight := round3 (clamp01 x)\<rparr>) (zip (edges g) xs)\<rparr>"
    using updateWeights_shape by blast
  define es' where "es' = map (\<lambda>(edge, x). edge\<lparr>weight := round3 (clamp01 x)\<rparr>) (zip (edges g) xs)"
  note m = map_zip_weight [OF xs(1), where h = "\<lambda>x. round3 (clamp01 x)", folded es'_def]
  have 1: "map idE es' = map idE (edges g)" by (rule m) simp
  have 2: "map source es' = map source (edges g)" by (rule m) simp
  have 3: "map target es' = map target (edges g)" by (rule m) simp
  have 4: "map priorE es' = map priorE (edges g)" by (rule m) simp
  have 5: "\<forall>e \<in> set es'. \<exists>x. weight e = round3 (clamp01 x)"
    unfolding es'_def by auto
  have "updateWeights g scores p stepSeed = g\<lparr>edges := es'\<rparr>"
    unfolding es'_def by (rule xs(2))
  then show ?thesis
    using 1 2 3 4 5 by simp
qed

lemma weight_in01_round_clamp: "weight e = round3 (clamp01 x) \<Longrightarrow> in01 (weight e)"
  by (simp add: in01_round3 in01_clamp01)

lemma update_append_fresh:
  "k \<notin> fst ` set pre \<Longrightarrow> AList.update k v (pre @ ys) = pre @ AList.update k v ys"
  by (induction pre) auto

lemma map_of_append_fresh:
  "k \<notin> fst ` set pre \<Longrightarrow> map_of (pre @ ys) k = map_of ys k"
  by (induction pre) auto

lemma updateContext_fold:
  "distinct (map fst (pre @ xs)) \<Longrightarrow>
   fold (\<lambda>(index, key) c. AList.update key (F index (the (map_of c key))) c)
     (enumerate n (map fst xs)) (pre @ xs) =
   pre @ map (\<lambda>(index, (key, v)). (key, F index v)) (enumerate n xs)"
proof (induction xs arbitrary: pre n)
  case Nil
  show ?case by simp
next
  case (Cons kv xs)
  obtain k v where kv: "kv = (k, v)" by (cases kv)
  have fresh: "k \<notin> fst ` set pre"
    using Cons.prems by (auto simp: kv)
  have step: "AList.update k (F n (the (map_of (pre @ (k, v) # xs) k))) (pre @ (k, v) # xs) =
        (pre @ [(k, F n v)]) @ xs"
    by (simp add: update_append_fresh [OF fresh] map_of_append_fresh [OF fresh]
          del: map_of_append)
  have d: "distinct (map fst ((pre @ [(k, F n v)]) @ xs))"
    using Cons.prems by (simp add: kv)
  let ?f = "\<lambda>(index, key) c. AList.update key (F index (the (map_of c key))) c"
  have "fold ?f (enumerate n (map fst (kv # xs))) (pre @ kv # xs) =
        fold ?f (enumerate (Suc n) (map fst xs))
          (AList.update k (F n (the (map_of (pre @ (k, v) # xs) k))) (pre @ (k, v) # xs))"
    by (simp add: kv del: map_of_append)
  also have "\<dots> = fold ?f (enumerate (Suc n) (map fst xs)) ((pre @ [(k, F n v)]) @ xs)"
    by (simp only: step)
  also have "\<dots> = (pre @ [(k, F n v)]) @
                   map (\<lambda>(index, (key, v)). (key, F index v)) (enumerate (Suc n) xs)"
    by (rule Cons.IH [OF d])
  also have "\<dots> = pre @ map (\<lambda>(index, (key, v)). (key, F index v)) (enumerate n (kv # xs))"
    by (simp add: kv)
  finally show ?case .
qed

lemma updateContext_eq:
  "distinct (map fst ctx) \<Longrightarrow>
   updateContext stp p ctx =
     map (\<lambda>(index, (key, v)). (key, perturbed stp p index v)) (enumerate 0 ctx)"
  using updateContext_fold [of "[]" ctx "perturbed stp p" 0]
  by (simp add: updateContext_def Let_def Object_keys_def perturbed_def)

lemma updateContext_props:
  assumes "distinct (map fst ctx)"
  shows "map fst (updateContext stp p ctx) = map fst ctx"
    and "\<forall>v \<in> snd ` set (updateContext stp p ctx). in01 v"
proof -
  have "map (fst \<circ> (\<lambda>(index, (key, v)). (key, perturbed stp p index v))) (enumerate 0 ctx) =
        map (fst \<circ> snd) (enumerate 0 ctx)"
    by (rule map_cong [OF refl]) auto
  then show "map fst (updateContext stp p ctx) = map fst ctx"
    by (simp add: updateContext_eq [OF assms] flip: map_map)
  show "\<forall>v \<in> snd ` set (updateContext stp p ctx). in01 v"
    by (auto simp: updateContext_eq [OF assms] perturbed_def in01_round3 in01_clamp01)
qed

lemma drift_inv: "stateInv p st \<Longrightarrow> stateInv p (drift p stp scores st)"
proof -
  assume inv: "stateInv p st"
  obtain g ctx where st: "st = (g, ctx)" by (cases st)
  have d: "distinct (map fst ctx)"
    using inv genNodes_distinct [of p] by (simp add: stateInv_def st)
  note w = updateWeights_props [of g scores p "seed p + stp + 1"]
  have "stateInv p (updateWeights g scores p (seed p + stp + 1), updateContext stp p ctx)"
    unfolding stateInv_def fst_conv snd_conv
  proof (intro conjI ballI)
    let ?g = "updateWeights g scores p (seed p + stp + 1)"
    show "nodes ?g = genNodes p"
      using inv w by (simp add: stateInv_def st)
    show "distinct (map idE (edges ?g))"
      using inv w by (simp add: stateInv_def st)
    show "map fst (updateContext stp p ctx) = map idN (genNodes p)"
      using inv updateContext_props(1) [OF d] by (simp add: stateInv_def st)
    show "in01 v" if "v \<in> snd ` set (updateContext stp p ctx)" for v
      using updateContext_props(2) [OF d] that by blast
    fix e assume e: "e \<in> set (edges ?g)"
    then show "in01 (weight e)"
      using w weight_in01_round_clamp by blast
    from e obtain i where i: "i < length (edges ?g)" "e = edges ?g ! i"
      by (auto simp: in_set_conv_nth)
    have len: "length (edges ?g) = length (edges g)"
      using w by (metis length_map)
    have "source e = source (edges g ! i)" "target e = target (edges g ! i)"
      using w i len by (metis nth_map)+
    moreover have "edges g ! i \<in> set (edges g)"
      using i len by simp
    ultimately show "source e \<noteq> target e" "source e \<in> idN ` set (genNodes p)"
        "target e \<in> idN ` set (genNodes p)"
      using inv by (auto simp: stateInv_def st)
  qed
  with inv show ?thesis
    by (simp add: drift_def st)
qed

lemma stateAt_inv: "stateInv p (stateAt p k)"
  by (induction k) (simp_all add: generateGraph_inv drift_inv)

lemma drift_keys: "stateInv p st \<Longrightarrow> map fst (snd (drift p stp scores st)) = map fst (snd st)"
  using drift_inv [of p st stp scores] by (simp add: stateInv_def)

lemma toEdgeWeightMap_values: "snd ` set (toEdgeWeightMap es) \<subseteq> weight ` set es"
proof -
  have "snd ` set (fold (\<lambda>edge result. AList.update (idE edge) (weight edge) result) es acc)
          \<subseteq> snd ` set acc \<union> weight ` set es" for acc
  proof (induction es arbitrary: acc)
    case Nil
    show ?case by simp
  next
    case (Cons e es)
    have "snd ` set (AList.update (idE e) (weight e) acc) \<subseteq> insert (weight e) (snd ` set acc)"
      using set_update_subset [of "idE e" "weight e" acc] by auto
    with Cons [of "AList.update (idE e) (weight e) acc"] show ?case
      by auto
  qed
  from this [of "[]"] show ?thesis
    by (simp add: toEdgeWeightMap_def)
qed

lemma stepLogAt_edgeWeights:
  "edgeWeights (stepLogAt p k) = toEdgeWeightMap (edges (fst (stateAt p k)))"
  by (simp add: stepLogAt_def stepLog_def Let_def)

lemma stateAt_weights: "\<forall>e \<in> set (edges (fst (stateAt p k))). 0 \<le> weight e \<and> weight e \<le> 1"
  using stateAt_inv [of p k] by (simp add: stateInv_def in01_def)

lemma stateAt_context: "\<forall>v \<in> snd ` set (snd (stateAt p k)). 0 \<le> v \<and> v \<le> 1"
  using stateAt_inv [of p k] by (simp add: stateInv_def in01_def)

lemma stateAt_keys: "map fst (snd (stateAt p k)) = map fst (snd (generateGraph (seed p) p))"
  using stateAt_inv [of p k] stateAt_inv [of p 0] by (simp add: stateInv_def)

lemma stateAt_keys_distinct: "distinct (map fst (snd (stateAt p k)))"
  using stateAt_inv [of p k] genNodes_distinct [of p] by (simp add: stateInv_def)

text \<open>
  C9. Edge weights and context values stay in \<open>[0,1]\<close>: the generator produces them in
  range, every weight written by \<open>updateWeights\<close> is \<open>round3 (clamp01 x)\<close> for some
  \<open>x\<close>, and the context drift replaces the entry at each position by
  \<open>round3 (clamp01 (old + perturbation + drift))\<close>, keeping the keys and their order. So at
  every iteration of every run, in every logged weight snapshot and in the returned graph
  and context, the values are in range and the context keys are those of the generator.
\<close>

theorem weights_and_context_in_range:
  "(\<forall>e \<in> set (edges (fst (generateGraph sd p))). 0 \<le> weight e \<and> weight e \<le> 1) \<and>
   (\<forall>v \<in> snd ` set (snd (generateGraph sd p)). 0 \<le> v \<and> v \<le> 1) \<and>
   (\<forall>e \<in> set (edges (updateWeights g scores p stepSeed)).
      (\<exists>x. weight e = round3 (clamp01 x)) \<and> 0 \<le> weight e \<and> weight e \<le> 1) \<and>
   (distinct (map fst ctx) \<longrightarrow>
      updateContext stp p ctx =
        map (\<lambda>(index, (key, v)).
               (key, round3 (clamp01 (v + sin (real ((stp + 1) * (index + 1))) * 0.005 +
                                      driftBias p * 0.01))))
          (enumerate 0 ctx) \<and>
      map fst (updateContext stp p ctx) = map fst ctx \<and>
      (\<forall>v \<in> snd ` set (updateContext stp p ctx). 0 \<le> v \<and> v \<le> 1)) \<and>
   (\<forall>e \<in> set (edges (fst (stateAt p k))). 0 \<le> weight e \<and> weight e \<le> 1) \<and>
   (\<forall>v \<in> snd ` set (snd (stateAt p k)). 0 \<le> v \<and> v \<le> 1) \<and>
   distinct (map fst (snd (stateAt p k))) \<and>
   map fst (snd (stateAt p k)) = map fst (snd (generateGraph (seed p) p)) \<and>
   (k < recursionDepth p \<longrightarrow>
      (\<forall>v \<in> snd ` set (edgeWeights (steps (runlog (runPipeline p)) ! k)). 0 \<le> v \<and> v \<le> 1)) \<and>
   (\<forall>e \<in> set (edges (graph (runPipeline p))). 0 \<le> weight e \<and> weight e \<le> 1) \<and>
   (\<forall>v \<in> snd ` set (contextOut (runPipeline p)). 0 \<le> v \<and> v \<le> 1) \<and>
   map fst (contextOut (runPipeline p)) = map fst (snd (generateGraph (seed p) p))"
proof (intro conjI impI)
  show "\<forall>e \<in> set (edges (fst (generateGraph sd p))). 0 \<le> weight e \<and> weight e \<le> 1"
    using generateGraph_inv [of p sd] by (simp add: stateInv_def in01_def)
  show "\<forall>v \<in> snd ` set (snd (generateGraph sd p)). 0 \<le> v \<and> v \<le> 1"
    using generateGraph_inv [of p sd] by (simp add: stateInv_def in01_def)
  show "\<forall>e \<in> set (edges (updateWeights g scores p stepSeed)).
      (\<exists>x. weight e = round3 (clamp01 x)) \<and> 0 \<le> weight e \<and> weight e \<le> 1"
  proof
    fix e assume "e \<in> set (edges (updateWeights g scores p stepSeed))"
    then obtain x where x: "weight e = round3 (clamp01 x)"
      using updateWeights_props [of g scores p stepSeed] by blast
    then have "in01 (weight e)"
      by (rule weight_in01_round_clamp)
    with x show "(\<exists>x. weight e = round3 (clamp01 x)) \<and> 0 \<le> weight e \<and> weight e \<le> 1"
      by (auto simp: in01_def)
  qed
  show "\<forall>e \<in> set (edges (fst (stateAt p k))). 0 \<le> weight e \<and> weight e \<le> 1"
    by (rule stateAt_weights)
  show "\<forall>v \<in> snd ` set (snd (stateAt p k)). 0 \<le> v \<and> v \<le> 1"
    by (rule stateAt_context)
  show "distinct (map fst (snd (stateAt p k)))"
    by (rule stateAt_keys_distinct)
  show "map fst (snd (stateAt p k)) = map fst (snd (generateGraph (seed p) p))"
    by (rule stateAt_keys)
  show "\<forall>e \<in> set (edges (graph (runPipeline p))). 0 \<le> weight e \<and> weight e \<le> 1"
    using stateAt_weights [of p "recursionDepth p"] by (simp add: runPipeline_final)
  show "\<forall>v \<in> snd ` set (contextOut (runPipeline p)). 0 \<le> v \<and> v \<le> 1"
    using stateAt_context [of p "recursionDepth p"] by (simp add: runPipeline_final)
  show "map fst (contextOut (runPipeline p)) = map fst (snd (generateGraph (seed p) p))"
    using stateAt_keys [of p "recursionDepth p"] by (simp add: runPipeline_final)
next
  assume d: "distinct (map fst ctx)"
  show "updateContext stp p ctx =
        map (\<lambda>(index, (key, v)).
               (key, round3 (clamp01 (v + sin (real ((stp + 1) * (index + 1))) * 0.005 +
                                      driftBias p * 0.01))))
          (enumerate 0 ctx)"
    using updateContext_eq [OF d, of stp p] unfolding perturbed_def .
  show "map fst (updateContext stp p ctx) = map fst ctx"
    by (rule updateContext_props(1) [OF d])
  show "\<forall>v \<in> snd ` set (updateContext stp p ctx). 0 \<le> v \<and> v \<le> 1"
    using updateContext_props(2) [OF d, of stp p] by (simp add: in01_def)
next
  assume k: "k < recursionDepth p"
  show "\<forall>v \<in> snd ` set (edgeWeights (steps (runlog (runPipeline p)) ! k)). 0 \<le> v \<and> v \<le> 1"
    using toEdgeWeightMap_values [of "edges (fst (stateAt p k))"] stateAt_weights [of p k] k
    by (auto simp: runPipeline_step_nth stepLogAt_edgeWeights)
qed

theorem weights_and_context_in_range_witness:
  "distinct (map fst tinyScores) \<and>
   map fst (updateContext 0 testParams tinyScores) = map fst tinyScores \<and>
   list_all (\<lambda>v. 0 \<le> v \<and> v \<le> 1) (map snd (updateContext 0 testParams tinyScores)) \<and>
   (1 :: nat) < recursionDepth testParams \<and>
   list_all (\<lambda>v. 0 \<le> v \<and> v \<le> 1)
     (map snd (edgeWeights (steps (runlog (runPipeline testParams)) ! 1)))"
proof -
  note t = weights_and_context_in_range [where p = testParams and ctx = tinyScores
      and stp = 0 and k = 1]
  have a: "distinct (map fst tinyScores)"
    by (simp add: tinyScores_def)
  note u = t [THEN conjunct2, THEN conjunct2, THEN conjunct2, THEN conjunct1, THEN mp, OF a]
  have b: "map fst (updateContext 0 testParams tinyScores) = map fst tinyScores"
    by (rule u [THEN conjunct2, THEN conjunct1])
  have "\<forall>v \<in> snd ` set (updateContext 0 testParams tinyScores). 0 \<le> v \<and> v \<le> 1"
    by (rule u [THEN conjunct2, THEN conjunct2])
  then have c: "list_all (\<lambda>v. 0 \<le> v \<and> v \<le> 1) (map snd (updateContext 0 testParams tinyScores))"
    by (simp add: list_all_iff)
  have d: "(1 :: nat) < recursionDepth testParams"
    by (simp add: testParams_def)
  have "\<forall>v \<in> snd ` set (edgeWeights (steps (runlog (runPipeline testParams)) ! 1)).
          0 \<le> v \<and> v \<le> 1"
    by (rule t [THEN conjunct2, THEN conjunct2, THEN conjunct2, THEN conjunct2, THEN conjunct2,
          THEN conjunct2, THEN conjunct2, THEN conjunct2, THEN conjunct1, THEN mp, OF d])
  then have e: "list_all (\<lambda>v. 0 \<le> v \<and> v \<le> 1)
     (map snd (edgeWeights (steps (runlog (runPipeline testParams)) ! 1)))"
    by (simp add: list_all_iff)
  show ?thesis
    by (intro conjI a b c d e)
qed

section \<open>Edge validity\<close>

lemma keptEdges_endpoints:
  "\<forall>e \<in> set (edges (keptGraph (applyRigidity g scores p))).
      source e \<in> idN ` set (nodes (keptGraph (applyRigidity g scores p))) \<and>
      target e \<in> idN ` set (nodes (keptGraph (applyRigidity g scores p)))"
  by (subst applyRigidity_keptEdges) simp

lemma keptEdges_distinct:
  "distinct (map idE (edges g)) \<Longrightarrow>
   distinct (map idE (edges (keptGraph (applyRigidity g scores p))))"
  by (subst applyRigidity_keptEdges) (rule distinct_map_filter)

lemma keptEdges_subset:
  "set (edges (keptGraph (applyRigidity g scores p))) \<subseteq> set (edges g)"
  by (subst applyRigidity_keptEdges) auto

lemma stateAt_edges_distinct: "distinct (map idE (edges (fst (stateAt p k))))"
  using stateAt_inv [of p k] by (simp add: stateInv_def)

lemma stateAt_endpoints:
  "\<forall>e \<in> set (edges (fst (stateAt p k))).
     source e \<in> idN ` set (nodes (fst (stateAt p k))) \<and>
     target e \<in> idN ` set (nodes (fst (stateAt p k)))"
  using stateAt_inv [of p k] by (simp add: stateInv_def)

text \<open>
  C6. Every edge of a pruned graph has both endpoints among the kept nodes, for every
  graph and score map; pruning keeps edge identifiers unique; the generated graph has
  unique edge identifiers and \<open>updateWeights\<close> does not change them. So at every
  iteration of every run the graph and the pruned graph have no duplicate edge identifier
  and only edges between their own nodes, and so has the returned graph.
\<close>

theorem edges_valid_and_unique:
  "(\<forall>e \<in> set (edges (keptGraph (applyRigidity g scores p))).
      source e \<in> idN ` set (nodes (keptGraph (applyRigidity g scores p))) \<and>
      target e \<in> idN ` set (nodes (keptGraph (applyRigidity g scores p)))) \<and>
   (distinct (map idE (edges g)) \<longrightarrow>
      distinct (map idE (edges (keptGraph (applyRigidity g scores p))))) \<and>
   distinct (map idE (edges (fst (generateGraph sd p)))) \<and>
   map idE (edges (updateWeights g scores p stepSeed)) = map idE (edges g) \<and>
   distinct (map idE (edges (fst (stateAt p k)))) \<and>
   (\<forall>e \<in> set (edges (fst (stateAt p k))).
      source e \<in> idN ` set (nodes (fst (stateAt p k))) \<and>
      target e \<in> idN ` set (nodes (fst (stateAt p k)))) \<and>
   distinct (map idE (edges (keptGraph (rigidAt p k)))) \<and>
   (\<forall>e \<in> set (edges (keptGraph (rigidAt p k))).
      source e \<in> idN ` set (nodes (keptGraph (rigidAt p k))) \<and>
      target e \<in> idN ` set (nodes (keptGraph (rigidAt p k)))) \<and>
   distinct (map idE (edges (graph (runPipeline p))))"
proof (intro conjI impI)
  show "\<forall>e \<in> set (edges (keptGraph (applyRigidity g scores p))).
      source e \<in> idN ` set (nodes (keptGraph (applyRigidity g scores p))) \<and>
      target e \<in> idN ` set (nodes (keptGraph (applyRigidity g scores p)))"
    by (rule keptEdges_endpoints)
  show "distinct (map idE (edges (keptGraph (applyRigidity g scores p))))"
    if "distinct (map idE (edges g))"
    using that by (rule keptEdges_distinct)
  show "distinct (map idE (edges (fst (generateGraph sd p))))"
    using generateGraph_inv [of p sd] by (simp add: stateInv_def)
  show "map idE (edges (updateWeights g scores p stepSeed)) = map idE (edges g)"
    using updateWeights_props [of g scores p stepSeed] by simp
  show "distinct (map idE (edges (fst (stateAt p k))))"
    by (rule stateAt_edges_distinct)
  show "\<forall>e \<in> set (edges (fst (stateAt p k))).
      source e \<in> idN ` set (nodes (fst (stateAt p k))) \<and>
      target e \<in> idN ` set (nodes (fst (stateAt p k)))"
    by (rule stateAt_endpoints)
  show "distinct (map idE (edges (keptGraph (rigidAt p k))))"
    unfolding rigidAt_def using stateAt_edges_distinct by (rule keptEdges_distinct)
  show "\<forall>e \<in> set (edges (keptGraph (rigidAt p k))).
      source e \<in> idN ` set (nodes (keptGraph (rigidAt p k))) \<and>
      target e \<in> idN ` set (nodes (keptGraph (rigidAt p k)))"
    unfolding rigidAt_def by (rule keptEdges_endpoints)
  show "distinct (map idE (edges (graph (runPipeline p))))"
    using stateAt_edges_distinct [of p "recursionDepth p"] by (simp add: runPipeline_final)
qed

theorem edges_valid_and_unique_witness:
  "distinct (map idE (edges tinyGraph)) \<and>
   distinct (map idE (edges (keptGraph (applyRigidity tinyGraph tinyScores testParams)))) \<and>
   list_all (\<lambda>e. source e \<in> idN ` set (nodes (keptGraph (applyRigidity tinyGraph tinyScores testParams))) \<and>
                  target e \<in> idN ` set (nodes (keptGraph (applyRigidity tinyGraph tinyScores testParams))))
     (edges (keptGraph (applyRigidity tinyGraph tinyScores testParams))) \<and>
   map idE (edges (keptGraph (applyRigidity tinyGraph tinyScores testParams))) = [''n001->n002'']"
proof -
  note t = edges_valid_and_unique [where g = tinyGraph and scores = tinyScores and p = testParams]
  have a: "distinct (map idE (edges tinyGraph))"
    by (simp add: tinyGraph_def)
  have b: "distinct (map idE (edges (keptGraph (applyRigidity tinyGraph tinyScores testParams))))"
    by (rule t [THEN conjunct2, THEN conjunct1, THEN mp, OF a])
  have c: "list_all (\<lambda>e. source e \<in> idN ` set (nodes (keptGraph (applyRigidity tinyGraph tinyScores testParams))) \<and>
                  target e \<in> idN ` set (nodes (keptGraph (applyRigidity tinyGraph tinyScores testParams))))
     (edges (keptGraph (applyRigidity tinyGraph tinyScores testParams)))"
    using t [THEN conjunct1] by (simp only: list_all_iff)
  have d: "map idE (edges (keptGraph (applyRigidity tinyGraph tinyScores testParams))) = [''n001->n002'']"
    by (simp add: applyRigidity_def Let_def testParams_def geqProp_def tinyGraph_def tinyScores_def)
  show ?thesis
    by (intro conjI a b c d)
qed

section \<open>activationScores\<close>

lemma foldl_add_weight:
  "foldl (\<lambda>sum edge. sum + weight edge) a es = a + sum_list (map weight es)"
  by (induction es arbitrary: a) simp_all

lemma nodeScore_formula:
  assumes "\<forall>edge \<in> set (edges g). source edge \<noteq> target edge"
  shows "nodeScore (makeAdjacency (edges g)) ctx p node =
           round3 (sigmoid ((rawScore p g (getOr0 ctx (idN node)) node - 0.5) * 4))"
  by (simp add: nodeScore_def Let_def getAdj_no_loops [OF assms] foldl_add_weight rawScore_def
        meanIncidentWeight_def)

lemma fold_upd_other:
  "k' \<notin> k ` set xs \<Longrightarrow> fold (\<lambda>x m. m(k x \<mapsto> f x)) xs m k' = m k'"
  by (induction xs arbitrary: m) auto

lemma fold_upd_lookup:
  "distinct (map k xs) \<Longrightarrow> y \<in> set xs \<Longrightarrow>
   fold (\<lambda>x m. m(k x \<mapsto> f x)) xs m (k y) = Some (f y)"
proof (induction xs arbitrary: m)
  case Nil
  then show ?case by simp
next
  case (Cons x xs)
  show ?case
  proof (cases "y \<in> set xs")
    case True
    then show ?thesis using Cons by simp
  next
    case False
    then have y: "y = x" using Cons.prems(2) by simp
    have "k x \<notin> k ` set xs" using Cons.prems(1) by simp
    then have a: "fold (\<lambda>x m. m(k x \<mapsto> f x)) xs (m(k x \<mapsto> f x)) (k x) = (m(k x \<mapsto> f x)) (k x)"
      by (rule fold_upd_other)
    have b: "fold (\<lambda>x m. m(k x \<mapsto> f x)) (x # xs) m =
             fold (\<lambda>x m. m(k x \<mapsto> f x)) xs (m(k x \<mapsto> f x))"
      by simp
    show ?thesis
      by (simp only: y a b fun_upd_same)
  qed
qed

lemma activationScores_lookup:
  assumes "distinct (map idN (nodes g))" and "node \<in> set (nodes g)"
  shows "map_of (activationScores g ctx p) (idN node) =
           Some (nodeScore (makeAdjacency (edges g)) ctx p node)"
  using fold_upd_lookup [OF assms, where f = "nodeScore (makeAdjacency (edges g)) ctx p"]
  by (simp add: activationScores_def Let_def map_of_fold_update)

lemma mean_in01:
  assumes "\<forall>x \<in> set xs. 0 \<le> f x \<and> f x \<le> (1 :: real)"
  shows "0 \<le> sum_list (map f xs) \<and> sum_list (map f xs) \<le> real (length xs)"
  using assms by (induction xs) auto

lemma meanIncidentWeight_range:
  assumes "\<forall>e \<in> set (edges g). 0 \<le> weight e \<and> weight e \<le> 1"
  shows "0 \<le> meanIncidentWeight g v \<and> meanIncidentWeight g v \<le> 1"
proof -
  let ?inc = "filter (\<lambda>edge. source edge = v \<or> target edge = v) (edges g)"
  have "\<forall>e \<in> set ?inc. 0 \<le> weight e \<and> weight e \<le> 1"
    using assms by simp
  from mean_in01 [OF this]
  have s: "0 \<le> sum_list (map weight ?inc)" "sum_list (map weight ?inc) \<le> real (length ?inc)"
    by simp_all
  show ?thesis
  proof (cases "?inc = []")
    case True
    then show ?thesis by (simp add: meanIncidentWeight_def)
  next
    case False
    then have "0 < real (length ?inc)" by simp
    with s show ?thesis
      using False by (simp add: meanIncidentWeight_def Let_def divide_le_eq)
  qed
qed

lemma rawScore_range:
  assumes "0 \<le> contextBlend p" "contextBlend p \<le> 1" "0 \<le> cs" "cs \<le> 1"
    and "\<forall>e \<in> set (edges g). 0 \<le> weight e \<and> weight e \<le> 1"
  shows "0 \<le> rawScore p g cs node \<and> rawScore p g cs node \<le> 1.08"
proof -
  let ?b = "contextBlend p" and ?d = "meanIncidentWeight g (idN node)"
  have d: "0 \<le> ?d" "?d \<le> 1"
    using meanIncidentWeight_range [OF assms(5)] by simp_all
  have 1: "0 \<le> ?b * cs" "?b * cs \<le> ?b"
    using assms(1-4) by (simp_all add: mult_left_le)
  have 2: "0 \<le> (1 - ?b) * ?d" "(1 - ?b) * ?d \<le> 1 - ?b"
    using assms(1,2) d by (simp_all add: mult_left_le)
  show ?thesis
    using 1 2 by (simp add: rawScore_def)
qed

lemma exp_2_le: "exp (2 :: real) \<le> 9"
proof -
  have "exp (2 :: real) = exp 1 * exp 1"
    by (simp flip: exp_add)
  also have "\<dots> \<le> 3 * 3"
    by (intro mult_mono exp_le) simp_all
  finally show ?thesis by simp
qed

lemma exp_3_le: "exp (3 :: real) \<le> 27"
proof -
  have "exp (3 :: real) = exp 2 * exp 1"
    by (simp flip: exp_add)
  also have "\<dots> \<le> 9 * 3"
    by (intro mult_mono exp_le exp_2_le) simp_all
  finally show ?thesis by simp
qed

lemma sigmoid_range:
  assumes "- 2 \<le> x" "x \<le> 3"
  shows "1 / 10 \<le> sigmoid x \<and> sigmoid x \<le> 27 / 28"
proof -
  have "exp (- x) \<le> exp 2"
    using assms(1) by simp
  then have up: "exp (- x) \<le> 9"
    using exp_2_le by linarith
  have "exp x \<le> exp 3"
    using assms(2) by simp
  then have "exp x \<le> 27"
    using exp_3_le by linarith
  then have "1 / 27 \<le> 1 / exp x"
    by (intro divide_left_mono) simp_all
  then have lo: "1 / 27 \<le> exp (- x)"
    by (simp add: exp_minus inverse_eq_divide)
  have pos: "0 < 1 + exp (- x)"
    by (simp add: add_pos_pos)
  show ?thesis
    using up lo pos by (simp add: sigmoid_def field_simps)
qed

lemma round3_mono: "x \<le> y \<Longrightarrow> round3 x \<le> round3 y"
  by (simp add: round3_def Math_round_def divide_right_mono floor_mono)

lemma score_range:
  assumes "0 \<le> raw" "raw \<le> 1.08"
  shows "0 < round3 (sigmoid ((raw - 0.5) * 4)) \<and> round3 (sigmoid ((raw - 0.5) * 4)) < 1"
proof -
  have "- 2 \<le> (raw - 0.5) * 4" "(raw - 0.5) * 4 \<le> 3"
    using assms by simp_all
  from sigmoid_range [OF this]
  have s: "1 / 10 \<le> sigmoid ((raw - 0.5) * 4)" "sigmoid ((raw - 0.5) * 4) \<le> 27 / 28"
    by simp_all
  have "round3 (1 / 10) \<le> round3 (sigmoid ((raw - 0.5) * 4))"
    using s(1) by (rule round3_mono)
  moreover have "round3 (sigmoid ((raw - 0.5) * 4)) \<le> round3 (27 / 28)"
    using s(2) by (rule round3_mono)
  moreover have "round3 (1 / 10) = 1 / 10" "round3 (27 / 28) = 964 / 1000"
    by (simp_all add: round3_def Math_round_def)
  ultimately show ?thesis
    by simp
qed

lemma stateAt_nodes: "nodes (fst (stateAt p k)) = genNodes p"
  using stateAt_inv [of p k] by (simp add: stateInv_def)

lemma stateAt_no_loops: "\<forall>edge \<in> set (edges (fst (stateAt p k))). source edge \<noteq> target edge"
  using stateAt_inv [of p k] by (simp add: stateInv_def)

lemma stateAt_context_entry:
  assumes "nd \<in> set (nodes (fst (stateAt p k)))"
  shows "\<exists>cs. map_of (snd (stateAt p k)) (idN nd) = Some cs \<and> 0 \<le> cs \<and> cs \<le> 1"
proof -
  have "idN nd \<in> set (map fst (snd (stateAt p k)))"
    using assms stateAt_inv [of p k] by (simp add: stateInv_def)
  then obtain cs where cs: "map_of (snd (stateAt p k)) (idN nd) = Some cs"
    by (metis domD dom_map_of_conv_image_fst set_map)
  then have "cs \<in> snd ` set (snd (stateAt p k))"
    by (metis map_of_SomeD snd_conv image_eqI)
  with stateAt_context [of p k] cs show ?thesis
    by blast
qed

lemma scoresAt_formula:
  assumes "nd \<in> set (nodes (fst (stateAt p k)))"
  shows "map_of (scoresAt p k) (idN nd) =
           Some (round3 (sigmoid ((rawScore p (fst (stateAt p k))
                                     (getOr0 (snd (stateAt p k)) (idN nd)) nd - 0.5) * 4)))"
proof -
  have "distinct (map idN (nodes (fst (stateAt p k))))"
    by (simp add: stateAt_nodes genNodes_distinct)
  from activationScores_lookup [OF this assms]
  show ?thesis
    by (simp add: scoresAt_def nodeScore_formula [OF stateAt_no_loops])
qed

lemma round3_is_rounded3: "round3 x = rounded3 x"
  by (simp add: round3_def Math_round_def rounded3_def round_def)

lemma score_pinned: "round3 (sigmoid x) = rounded3 (1 / (1 + exp (- x)))"
  by (simp add: round3_is_rounded3 sigmoid_def)

lemma sigmoid_open_unit: "0 < sigmoid x \<and> sigmoid x < 1"
proof -
  have "0 < exp (- x)" by simp
  then show ?thesis
    by (simp add: sigmoid_def add_pos_pos)
qed

lemma activation_score_source:
  "(distinct (map idN (nodes g)) \<and> (\<forall>edge \<in> set (edges g). source edge \<noteq> target edge) \<and>
    node \<in> set (nodes g) \<longrightarrow>
      map_of (activationScores g ctx q) (idN node) =
        Some (round3 (sigmoid ((rawScore q g (getOr0 ctx (idN node)) node - 0.5) * 4)))) \<and>
   (nd \<in> set (nodes (fst (stateAt p k))) \<longrightarrow>
      (\<exists>cs. map_of (snd (stateAt p k)) (idN nd) = Some cs \<and>
            map_of (scoresAt p k) (idN nd) =
              Some (round3 (sigmoid ((rawScore p (fst (stateAt p k)) cs nd - 0.5) * 4))))) \<and>
   (0 \<le> contextBlend p \<and> contextBlend p \<le> 1 \<and> nd \<in> set (nodes (fst (stateAt p k))) \<longrightarrow>
      0 < getOr0 (scoresAt p k) (idN nd) \<and> getOr0 (scoresAt p k) (idN nd) < 1) \<and>
   (k < recursionDepth p \<longrightarrow>
      activationVector (steps (runlog (runPipeline p)) ! k) = scoresAt p k)"
proof (intro conjI impI)
  assume a: "distinct (map idN (nodes g)) \<and> (\<forall>edge \<in> set (edges g). source edge \<noteq> target edge) \<and>
    node \<in> set (nodes g)"
  then have "map_of (activationScores g ctx q) (idN node) =
               Some (nodeScore (makeAdjacency (edges g)) ctx q node)"
    by (intro activationScores_lookup) simp_all
  then show "map_of (activationScores g ctx q) (idN node) =
        Some (round3 (sigmoid ((rawScore q g (getOr0 ctx (idN node)) node - 0.5) * 4)))"
    using a by (simp add: nodeScore_formula)
next
  assume nd: "nd \<in> set (nodes (fst (stateAt p k)))"
  obtain cs where cs: "map_of (snd (stateAt p k)) (idN nd) = Some cs"
    using stateAt_context_entry [OF nd] by blast
  then have "getOr0 (snd (stateAt p k)) (idN nd) = cs"
    by (simp add: getOr0_def)
  with scoresAt_formula [OF nd] cs
  show "\<exists>cs. map_of (snd (stateAt p k)) (idN nd) = Some cs \<and>
            map_of (scoresAt p k) (idN nd) =
              Some (round3 (sigmoid ((rawScore p (fst (stateAt p k)) cs nd - 0.5) * 4)))"
    by simp
next
  assume a: "0 \<le> contextBlend p \<and> contextBlend p \<le> 1 \<and> nd \<in> set (nodes (fst (stateAt p k)))"
  then have nd: "nd \<in> set (nodes (fst (stateAt p k)))" by simp
  obtain cs where cs: "map_of (snd (stateAt p k)) (idN nd) = Some cs" "0 \<le> cs" "cs \<le> 1"
    using stateAt_context_entry [OF nd] by blast
  have g: "getOr0 (snd (stateAt p k)) (idN nd) = cs"
    using cs(1) by (simp add: getOr0_def)
  have "0 \<le> rawScore p (fst (stateAt p k)) cs nd \<and> rawScore p (fst (stateAt p k)) cs nd \<le> 1.08"
    using a cs(2,3) stateAt_weights [of p k] by (intro rawScore_range) simp_all
  then have "0 < round3 (sigmoid ((rawScore p (fst (stateAt p k)) cs nd - 0.5) * 4)) \<and>
             round3 (sigmoid ((rawScore p (fst (stateAt p k)) cs nd - 0.5) * 4)) < 1"
    by (intro score_range) simp_all
  moreover have "getOr0 (scoresAt p k) (idN nd) =
                 round3 (sigmoid ((rawScore p (fst (stateAt p k)) cs nd - 0.5) * 4))"
    using scoresAt_formula [OF nd] unfolding g by (simp add: getOr0_def)
  ultimately show "0 < getOr0 (scoresAt p k) (idN nd)" "getOr0 (scoresAt p k) (idN nd) < 1"
    by simp_all
next
  assume "k < recursionDepth p"
  then show "activationVector (steps (runlog (runPipeline p)) ! k) = scoresAt p k"
    by (simp add: runPipeline_step_nth stepLogAt_activationVector)
qed


text \<open>
  C7. For a graph with unique node identifiers and no self-loop, the activation score of a
  node is \<open>1 / (1 + exp (- ((raw - 0.5) * 4)))\<close> rounded to three decimals (the nearest
  multiple of \<open>1/1000\<close>, halves upwards), where \<open>raw\<close> blends the node's context value with
  the mean weight of its incident edges (0 if it has none) and adds 0.08 for a novel node.
  At every iteration of a run this is the stored score of every node, computed from the
  node's context entry, and with \<open>contextBlend\<close> in \<open>[0,1]\<close> it lies strictly between 0
  and 1. The function \<open>sigmoid\<close> of the engine is the logistic function, with values
  strictly between 0 and 1.
\<close>

theorem activation_score_formula:
  "(distinct (map idN (nodes g)) \<and> (\<forall>edge \<in> set (edges g). source edge \<noteq> target edge) \<and>
    node \<in> set (nodes g) \<longrightarrow>
      map_of (activationScores g ctx q) (idN node) =
        Some (rounded3 (1 / (1 + exp (- ((rawScore q g (getOr0 ctx (idN node)) node - 0.5) * 4)))))) \<and>
   (nd \<in> set (nodes (fst (stateAt p k))) \<longrightarrow>
      (\<exists>cs. map_of (snd (stateAt p k)) (idN nd) = Some cs \<and>
            map_of (scoresAt p k) (idN nd) =
              Some (rounded3 (1 / (1 + exp (- ((rawScore p (fst (stateAt p k)) cs nd - 0.5) * 4))))))) \<and>
   (0 \<le> contextBlend p \<and> contextBlend p \<le> 1 \<and> nd \<in> set (nodes (fst (stateAt p k))) \<longrightarrow>
      0 < getOr0 (scoresAt p k) (idN nd) \<and> getOr0 (scoresAt p k) (idN nd) < 1) \<and>
   (k < recursionDepth p \<longrightarrow>
      activationVector (steps (runlog (runPipeline p)) ! k) = scoresAt p k \<and>
      scoresAt p k = activationScores (fst (stateAt p k)) (snd (stateAt p k)) p) \<and>
   sigmoid x = 1 / (1 + exp (- x)) \<and> 0 < sigmoid x \<and> sigmoid x < 1"
  using activation_score_source [of g node ctx q nd p k] sigmoid_open_unit [of x]
  unfolding score_pinned by (simp add: sigmoid_def scoresAt_def)

theorem activation_score_formula_witness:
  "0 \<le> contextBlend testParams \<and> contextBlend testParams \<le> 1 \<and>
   genNode testParams 0 \<in> set (nodes (fst (stateAt testParams 0))) \<and>
   (\<exists>cs. map_of (snd (stateAt testParams 0)) (idN (genNode testParams 0)) = Some cs \<and>
         map_of (scoresAt testParams 0) (idN (genNode testParams 0)) =
           Some (rounded3 (1 / (1 + exp (- ((rawScore testParams (fst (stateAt testParams 0)) cs
                                               (genNode testParams 0) - 0.5) * 4)))))) \<and>
   0 < getOr0 (scoresAt testParams 0) (idN (genNode testParams 0)) \<and>
   getOr0 (scoresAt testParams 0) (idN (genNode testParams 0)) < 1 \<and>
   (0 :: nat) < recursionDepth testParams \<and>
   activationVector (steps (runlog (runPipeline testParams)) ! 0) = scoresAt testParams 0"
proof -
  note t = activation_score_formula [where p = testParams and k = 0 and nd = "genNode testParams 0"]
  have a: "0 \<le> contextBlend testParams" and b: "contextBlend testParams \<le> 1"
    and f: "(0 :: nat) < recursionDepth testParams"
    by (simp_all add: testParams_def)
  have "(0 :: nat) \<in> set [0..<nodeCount testParams]"
    by (simp add: testParams_def)
  then have c: "genNode testParams 0 \<in> set (nodes (fst (stateAt testParams 0)))"
    unfolding stateAt_nodes genNodes_def by (simp only: set_map image_eqI)
  note h = t [THEN conjunct2, THEN conjunct1, THEN mp, OF c]
  note u = t [THEN conjunct2, THEN conjunct2, THEN conjunct1, THEN mp, OF conjI [OF a conjI [OF b c]]]
  have d: "0 < getOr0 (scoresAt testParams 0) (idN (genNode testParams 0))"
    by (rule u [THEN conjunct1])
  have e: "getOr0 (scoresAt testParams 0) (idN (genNode testParams 0)) < 1"
    by (rule u [THEN conjunct2])
  have g: "activationVector (steps (runlog (runPipeline testParams)) ! 0) = scoresAt testParams 0"
    by (rule t [THEN conjunct2, THEN conjunct2, THEN conjunct2, THEN conjunct1, THEN mp, OF f,
          THEN conjunct1])
  show ?thesis
    by (intro conjI a b c h d e f g)
qed

section \<open>The stored delta and the scores of the steps\<close>

lemma fold_update_keys:
  "distinct (map k xs) \<Longrightarrow> k ` set xs \<inter> fst ` set acc = {} \<Longrightarrow>
   map fst (fold (\<lambda>x sc. AList.update (k x) (f x) sc) xs acc) = map fst acc @ map k xs"
proof (induction xs arbitrary: acc)
  case Nil
  show ?case by simp
next
  case (Cons x xs)
  have fresh: "k x \<notin> fst ` set acc"
    using Cons.prems(2) by auto
  have "map fst (fold (\<lambda>x sc. AList.update (k x) (f x) sc) xs (acc @ [(k x, f x)])) =
        map fst (acc @ [(k x, f x)]) @ map k xs"
    using Cons.prems by (intro Cons.IH) auto
  then show ?case
    by (simp add: update_fresh [OF fresh])
qed

lemma activationScores_keys:
  "distinct (map idN (nodes g)) \<Longrightarrow> map fst (activationScores g ctx p) = map idN (nodes g)"
  using fold_update_keys [of idN "nodes g" "[]"] by (simp add: activationScores_def Let_def)

lemma scoresAt_keys: "map fst (scoresAt p k) = map makeNodeId [0..<nodeCount p]"
proof -
  have "distinct (map idN (nodes (fst (stateAt p k))))"
    by (simp add: stateAt_nodes genNodes_distinct)
  then have "map fst (scoresAt p k) = map idN (nodes (fst (stateAt p k)))"
    unfolding scoresAt_def by (rule activationScores_keys)
  then show ?thesis
    by (simp add: stateAt_nodes genNodes_ids)
qed

lemma delta_logged:
  "(0 < recursionDepth p \<longrightarrow> delta (steps (runlog (runPipeline p)) ! 0) = 0) \<and>
   (0 < i \<and> i < recursionDepth p \<longrightarrow>
      delta (steps (runlog (runPipeline p)) ! i) =
        rounded3 (l2_spec (activationVector (steps (runlog (runPipeline p)) ! (i - 1)))
                          (activationVector (steps (runlog (runPipeline p)) ! i))) \<and>
      delta (steps (runlog (runPipeline p)) ! i) =
        toFixed3 (l2Distance (activationVector (steps (runlog (runPipeline p)) ! (i - 1)))
                             (activationVector (steps (runlog (runPipeline p)) ! i)))) \<and>
   l2Distance a b = l2_spec a b \<and>
   \<bar>rounded3 x - x\<bar> \<le> 1 / 2000 \<and>
   (\<exists>n :: int. rounded3 x = of_int n / 1000)"
proof (intro conjI impI)
  assume "0 < recursionDepth p"
  then show "delta (steps (runlog (runPipeline p)) ! 0) = 0"
    by (simp add: runPipeline_step_nth stepLogAt_delta)
next
  assume i: "0 < i \<and> i < recursionDepth p"
  then have "i - 1 < recursionDepth p" by arith
  with i show "delta (steps (runlog (runPipeline p)) ! i) =
        rounded3 (l2_spec (activationVector (steps (runlog (runPipeline p)) ! (i - 1)))
                          (activationVector (steps (runlog (runPipeline p)) ! i)))"
    by (simp add: runPipeline_step_nth stepLogAt_delta stepLogAt_activationVector)
  then show "delta (steps (runlog (runPipeline p)) ! i) =
        toFixed3 (l2Distance (activationVector (steps (runlog (runPipeline p)) ! (i - 1)))
                             (activationVector (steps (runlog (runPipeline p)) ! i)))"
    by (simp add: l2Distance_spec toFixed3_rounded l2_spec_nonneg)
next
  show "l2Distance a b = l2_spec a b" by (rule l2Distance_spec)
  show "\<bar>rounded3 x - x\<bar> \<le> 1 / 2000" by (rule rounded3_near)
  show "\<exists>n :: int. rounded3 x = of_int n / 1000"
    unfolding rounded3_def by blast
qed


text \<open>
  C2. In every run the first step stores delta 0, and every later step \<open>i\<close> stores the
  Euclidean distance between the activation scores computed at steps \<open>i - 1\<close> and \<open>i\<close> (a
  key missing from one side read as 0), rounded to three decimals. The activation vector
  logged by step \<open>i\<close> is the score map that step computes from its graph and context, with
  one entry per node; the loop of \<open>l2Distance\<close> over the set of keys computes the
  Euclidean distance, and the stored value is the multiple of \<open>1/1000\<close> nearest to it.
\<close>

theorem delta_is_l2_distance:
  "(0 < recursionDepth p \<longrightarrow> delta (steps (runlog (runPipeline p)) ! 0) = 0) \<and>
   (0 < i \<and> i < recursionDepth p \<longrightarrow>
      delta (steps (runlog (runPipeline p)) ! i) =
        rounded3 (l2_spec (scoresAt p (i - 1)) (scoresAt p i)) \<and>
      delta (steps (runlog (runPipeline p)) ! i) =
        rounded3 (l2_spec (activationVector (steps (runlog (runPipeline p)) ! (i - 1)))
                          (activationVector (steps (runlog (runPipeline p)) ! i))) \<and>
      delta (steps (runlog (runPipeline p)) ! i) =
        toFixed3 (l2Distance (activationVector (steps (runlog (runPipeline p)) ! (i - 1)))
                             (activationVector (steps (runlog (runPipeline p)) ! i)))) \<and>
   (i < recursionDepth p \<longrightarrow>
      activationVector (steps (runlog (runPipeline p)) ! i) = scoresAt p i \<and>
      scoresAt p i = activationScores (fst (stateAt p i)) (snd (stateAt p i)) p \<and>
      map fst (activationVector (steps (runlog (runPipeline p)) ! i)) =
        map makeNodeId [0..<nodeCount p]) \<and>
   l2Distance a b = l2_spec a b \<and>
   \<bar>rounded3 x - x\<bar> \<le> 1 / 2000 \<and>
   (\<exists>n :: int. rounded3 x = of_int n / 1000)"
proof -
  note old = delta_logged [of p i a b x]
  have vec: "activationVector (steps (runlog (runPipeline p)) ! j) = scoresAt p j"
    if "j < recursionDepth p" for j
    using that by (simp add: runPipeline_step_nth stepLogAt_activationVector)
  have prev: "i - 1 < recursionDepth p" if "0 < i \<and> i < recursionDepth p"
    using that by arith
  have 1: "0 < recursionDepth p \<longrightarrow> delta (steps (runlog (runPipeline p)) ! 0) = 0"
    using old by blast
  have 2: "0 < i \<and> i < recursionDepth p \<longrightarrow>
      delta (steps (runlog (runPipeline p)) ! i) =
        rounded3 (l2_spec (scoresAt p (i - 1)) (scoresAt p i)) \<and>
      delta (steps (runlog (runPipeline p)) ! i) =
        rounded3 (l2_spec (activationVector (steps (runlog (runPipeline p)) ! (i - 1)))
                          (activationVector (steps (runlog (runPipeline p)) ! i))) \<and>
      delta (steps (runlog (runPipeline p)) ! i) =
        toFixed3 (l2Distance (activationVector (steps (runlog (runPipeline p)) ! (i - 1)))
                             (activationVector (steps (runlog (runPipeline p)) ! i)))"
  proof
    assume i: "0 < i \<and> i < recursionDepth p"
    from old i have d: "delta (steps (runlog (runPipeline p)) ! i) =
        rounded3 (l2_spec (activationVector (steps (runlog (runPipeline p)) ! (i - 1)))
                          (activationVector (steps (runlog (runPipeline p)) ! i)))"
      and e: "delta (steps (runlog (runPipeline p)) ! i) =
        toFixed3 (l2Distance (activationVector (steps (runlog (runPipeline p)) ! (i - 1)))
                             (activationVector (steps (runlog (runPipeline p)) ! i)))"
      by blast+
    have "delta (steps (runlog (runPipeline p)) ! i) =
        rounded3 (l2_spec (scoresAt p (i - 1)) (scoresAt p i))"
      using d i by (simp only: vec [OF prev [OF i]] vec [of i])
    with d e show "delta (steps (runlog (runPipeline p)) ! i) =
        rounded3 (l2_spec (scoresAt p (i - 1)) (scoresAt p i)) \<and>
      delta (steps (runlog (runPipeline p)) ! i) =
        rounded3 (l2_spec (activationVector (steps (runlog (runPipeline p)) ! (i - 1)))
                          (activationVector (steps (runlog (runPipeline p)) ! i))) \<and>
      delta (steps (runlog (runPipeline p)) ! i) =
        toFixed3 (l2Distance (activationVector (steps (runlog (runPipeline p)) ! (i - 1)))
                             (activationVector (steps (runlog (runPipeline p)) ! i)))"
      by blast
  qed
  have 3: "i < recursionDepth p \<longrightarrow>
      activationVector (steps (runlog (runPipeline p)) ! i) = scoresAt p i \<and>
      scoresAt p i = activationScores (fst (stateAt p i)) (snd (stateAt p i)) p \<and>
      map fst (activationVector (steps (runlog (runPipeline p)) ! i)) =
        map makeNodeId [0..<nodeCount p]"
    by (simp add: vec scoresAt_keys) (simp add: scoresAt_def)
  have 4: "l2Distance a b = l2_spec a b" "\<bar>rounded3 x - x\<bar> \<le> 1 / 2000"
    "\<exists>n :: int. rounded3 x = of_int n / 1000"
    using old by blast+
  show ?thesis
    by (intro conjI 1 2 3 4)
qed

theorem delta_is_l2_distance_witness:
  "0 < recursionDepth testParams \<and>
   delta (steps (runlog (runPipeline testParams)) ! 0) = 0 \<and>
   (0 :: nat) < 1 \<and> 1 < recursionDepth testParams \<and>
   delta (steps (runlog (runPipeline testParams)) ! 1) =
     rounded3 (l2_spec (scoresAt testParams 0) (scoresAt testParams 1)) \<and>
   activationVector (steps (runlog (runPipeline testParams)) ! 1) = scoresAt testParams 1 \<and>
   length (activationVector (steps (runlog (runPipeline testParams)) ! 1)) = 24"
proof -
  note t = delta_is_l2_distance [where p = testParams and i = 1]
  have a: "0 < recursionDepth testParams" and b: "(0 :: nat) < 1"
    and c: "1 < recursionDepth testParams"
    by (simp_all add: testParams_def)
  have d: "delta (steps (runlog (runPipeline testParams)) ! 0) = 0"
    by (rule t [THEN conjunct1, THEN mp, OF a])
  have "delta (steps (runlog (runPipeline testParams)) ! 1) =
     rounded3 (l2_spec (scoresAt testParams (1 - 1)) (scoresAt testParams 1))"
    by (rule t [THEN conjunct2, THEN conjunct1, THEN mp, OF conjI [OF b c], THEN conjunct1])
  then have e: "delta (steps (runlog (runPipeline testParams)) ! 1) =
     rounded3 (l2_spec (scoresAt testParams 0) (scoresAt testParams 1))"
    by simp
  note u = t [THEN conjunct2, THEN conjunct2, THEN conjunct1, THEN mp, OF c]
  have f: "activationVector (steps (runlog (runPipeline testParams)) ! 1) = scoresAt testParams 1"
    by (rule u [THEN conjunct1])
  have "length (map fst (activationVector (steps (runlog (runPipeline testParams)) ! 1))) =
        length (map makeNodeId [0..<nodeCount testParams])"
    by (simp only: u [THEN conjunct2, THEN conjunct2])
  then have g: "length (activationVector (steps (runlog (runPipeline testParams)) ! 1)) = 24"
    by (simp add: testParams_def)
  show ?thesis
    by (intro conjI a d b c e f g)
qed

section \<open>Determinism: the engine over the store\<close>

lemma setRng_simps [simp]:
  "rngCells (setRng r s w) = (rngCells w)(r := s)"
  "rngCount (setRng r s w) = rngCount w"
  "contextCells (setRng r s w) = contextCells w"
  "contextCount (setRng r s w) = contextCount w"
  "setRng r s' (setRng r s w) = setRng r s' w"
  by (simp_all add: setRng_def)

lemma setCtx_simps [simp]:
  "rngCells (setCtx c ctx w) = rngCells w"
  "rngCount (setCtx c ctx w) = rngCount w"
  "contextCells (setCtx c ctx w) = (contextCells w)(c := ctx)"
  "contextCount (setCtx c ctx w) = contextCount w"
  "setCtx c ctx' (setCtx c ctx w) = setCtx c ctx' w"
  "setRng r s (setCtx c ctx w) = setCtx c ctx (setRng r s w)"
  by (simp_all add: setCtx_def setRng_def)

lemma setRng_same: "setRng r (rngCells w r) w = w"
  by (simp add: setRng_def)

lemma setCtx_same: "setCtx c (contextCells w c) w = w"
  by (simp add: setCtx_def)

lemma nextW_rng_next:
  "nextW r w = (snd (rng_next (rngCells w r)), setRng r (fst (rng_next (rngCells w r))) w)"
  by (simp add: nextW_def rng_next_def Let_def setRng_def)

lemma fold_emb:
  "(\<And>x S. F x (emb S) = emb (f x S)) \<Longrightarrow> fold F xs (emb S) = emb (fold f xs S)"
  by (induction xs arbitrary: S) simp_all

lemma genEdgeStepW_emb:
  "genEdgeStepW density ns r i j (case S of (s, es) \<Rightarrow> (setRng r s w, es)) =
     (case genEdgeStep density ns i j S of (s, es) \<Rightarrow> (setRng r s w, es))"
  by (cases S)
     (simp add: genEdgeStepW_def genEdgeStep_def nextW_rng_next Let_def split: prod.splits)

lemma genEdgesW_emb:
  "genEdgesW density ns r (setRng r s w) =
     (case genEdges density ns s of (s', es) \<Rightarrow> (setRng r s' w, es))"
proof -
  let ?emb = "\<lambda>S. case S of (s, es) \<Rightarrow> (setRng r s w, es)"
  have inner: "fold (\<lambda>j. genEdgeStepW density ns r i j) js (?emb S) =
               ?emb (fold (\<lambda>j. genEdgeStep density ns i j) js S)" for i js S
    by (rule fold_emb) (rule genEdgeStepW_emb)
  have "fold (\<lambda>i st. fold (\<lambda>j. genEdgeStepW density ns r i j) [i + 1..<length ns] st)
          [0..<length ns] (?emb (s, [])) =
        ?emb (fold (\<lambda>i st. fold (\<lambda>j. genEdgeStep density ns i j) [i + 1..<length ns] st)
          [0..<length ns] (s, []))"
    by (rule fold_emb) (rule inner)
  then show ?thesis
    by (simp add: genEdgesW_def genEdges_def)
qed

lemma genContextStepW_emb:
  "genContextStepW r c node (case S of (s, ctx) \<Rightarrow> setCtx c ctx (setRng r s w)) =
     (case genContextStep node S of (s, ctx) \<Rightarrow> setCtx c ctx (setRng r s w))"
  by (cases S)
     (simp add: genContextStepW_def genContextStep_def nextW_rng_next Let_def setCtx_def
        setRng_def split: prod.splits)

lemma generateGraphW_eq:
  "\<exists>s. generateGraphW sd p w =
     ((fst (generateGraph sd p), contextCount w),
      setCtx (contextCount w) (snd (generateGraph sd p))
        (setRng (rngCount w) s
          (w\<lparr>rngCount := Suc (rngCount w), contextCount := Suc (contextCount w)\<rparr>)))"
proof -
  let ?r = "rngCount w" and ?c = "contextCount w"
  let ?wa = "w\<lparr>rngCount := Suc (rngCount w)\<rparr>"
  let ?wb = "w\<lparr>rngCount := Suc (rngCount w), contextCount := Suc (contextCount w)\<rparr>"
  obtain s1 es where es: "genEdges (edgeDensity p) (genNodes p) (createRng sd) = (s1, es)"
    by (cases "genEdges (edgeDensity p) (genNodes p) (createRng sd)")
  obtain s2 ctx where ctx: "fold genContextStep (genNodes p) (s1, []) = (s2, ctx)"
    by (cases "fold genContextStep (genNodes p) (s1, [])")
  have g: "generateGraph sd p = (\<lparr>nodes = genNodes p, edges = es\<rparr>, ctx)"
    by (simp add: generateGraph_def Let_def es ctx)
  have 1: "createRngW sd w = (?r, setRng ?r (createRng sd) ?wa)"
    by (simp add: createRngW_def createRng_def setRng_def)
  have 2: "genEdgesW (edgeDensity p) (genNodes p) ?r (setRng ?r (createRng sd) ?wa) =
           (setRng ?r s1 ?wa, es)"
    by (simp add: genEdgesW_emb es)
  have 3: "newContextW (setRng ?r s1 ?wa) = (?c, setCtx ?c [] (setRng ?r s1 ?wb))"
    by (simp add: newContextW_def setCtx_def setRng_def)
  let ?emb = "\<lambda>S. case S of (s, ctx) \<Rightarrow> setCtx ?c ctx (setRng ?r s ?wb)"
  have "fold (genContextStepW ?r ?c) (genNodes p) (?emb (s1, [])) =
        ?emb (fold genContextStep (genNodes p) (s1, []))"
    by (rule fold_emb) (rule genContextStepW_emb)
  then have 4: "fold (genContextStepW ?r ?c) (genNodes p) (setCtx ?c [] (setRng ?r s1 ?wb)) =
                setCtx ?c ctx (setRng ?r s2 ?wb)"
    by (simp add: ctx)
  have "generateGraphW sd p w =
          ((\<lparr>nodes = genNodes p, edges = es\<rparr>, ?c), setCtx ?c ctx (setRng ?r s2 ?wb))"
    by (simp add: generateGraphW_def Let_def 1 2 3 4)
  then show ?thesis
    by (intro exI [of _ s2]) (simp add: g)
qed

lemma updateEdgeW_emb:
  "updateEdgeW scores p r edge (case S of (s, out) \<Rightarrow> (setRng r s w, out)) =
     (case updateEdge scores p edge S of (s, out) \<Rightarrow> (setRng r s w, out))"
  by (cases S)
     (simp add: updateEdgeW_def updateEdge_def nextW_rng_next Let_def split: prod.splits)

lemma updateWeightsW_eq:
  "\<exists>s. updateWeightsW g scores p stepSeed w =
     (updateWeights g scores p stepSeed,
      setRng (rngCount w) s (w\<lparr>rngCount := Suc (rngCount w)\<rparr>))"
proof -
  let ?r = "rngCount w"
  let ?wa = "w\<lparr>rngCount := Suc (rngCount w)\<rparr>"
  let ?emb = "\<lambda>S. case S of (s, out) \<Rightarrow> (setRng ?r s ?wa, out)"
  obtain s1 es where es: "fold (updateEdge scores p) (edges g) (createRng stepSeed, []) = (s1, es)"
    by (cases "fold (updateEdge scores p) (edges g) (createRng stepSeed, [])")
  have 1: "createRngW stepSeed w = (?r, setRng ?r (createRng stepSeed) ?wa)"
    by (simp add: createRngW_def createRng_def setRng_def)
  have "fold (updateEdgeW scores p ?r) (edges g) (?emb (createRng stepSeed, [])) =
        ?emb (fold (updateEdge scores p) (edges g) (createRng stepSeed, []))"
    by (rule fold_emb) (rule updateEdgeW_emb)
  then have 2: "fold (updateEdgeW scores p ?r) (edges g) (setRng ?r (createRng stepSeed) ?wa, []) =
                (setRng ?r s1 ?wa, es)"
    by (simp add: es)
  have "updateWeightsW g scores p stepSeed w = (g\<lparr>edges := es\<rparr>, setRng ?r s1 ?wa)"
    by (simp add: updateWeightsW_def Let_def 1 2)
  then show ?thesis
    by (intro exI [of _ s1]) (simp add: updateWeights_def es)
qed

lemma updateContextW_eq:
  "updateContextW stp p c w = setCtx c (updateContext stp p (contextCells w c)) w"
proof -
  let ?F = "\<lambda>(index, key) w'.
                 (let perturb = sin (real ((stp + 1) * (index + 1))) * 0.005
                  in w'\<lparr>contextCells := (contextCells w')
                          (c := AList.update key
                                  (round3 (clamp01 (the (map_of (contextCells w' c) key) +
                                                    perturb + driftBias p * 0.01)))
                                  (contextCells w' c))\<rparr>)"
  let ?f = "\<lambda>(index, key) c'.
                 (let perturb = sin (real ((stp + 1) * (index + 1))) * 0.005
                  in AList.update key
                       (round3 (clamp01 (the (map_of c' key) + perturb + driftBias p * 0.01))) c')"
  have "fold ?F xs ((\<lambda>ctx. setCtx c ctx w) ctx) = (\<lambda>ctx. setCtx c ctx w) (fold ?f xs ctx)" for xs ctx
    by (rule fold_emb) (simp add: setCtx_def split: prod.splits)
  from this [of "enumerate 0 (Object_keys (contextCells w c))" "contextCells w c"]
  show ?thesis
    by (simp add: updateContextW_def updateContext_def Let_def setCtx_same)
qed

lemma touches_refl: "touches c w w"
  by (simp add: touches_def)

lemma touches_trans: "touches c w w' \<Longrightarrow> touches c w' w'' \<Longrightarrow> touches c w w''"
  by (auto simp: touches_def)

lemma driftW_sim:
  "fst (driftW p stp scores g c w) = fst (drift p stp scores (g, contextCells w c)) \<and>
   contextCells (snd (driftW p stp scores g c w)) c =
     snd (drift p stp scores (g, contextCells w c)) \<and>
   touches c w (snd (driftW p stp scores g c w))"
proof (cases "int stp < int (recursionDepth p) - 1")
  case False
  then show ?thesis
    by (simp add: driftW_def drift_def touches_refl)
next
  case True
  obtain s where s: "updateWeightsW g scores p (Suc (seed p + stp)) w =
     (updateWeights g scores p (Suc (seed p + stp)),
      setRng (rngCount w) s (w\<lparr>rngCount := Suc (rngCount w)\<rparr>))"
    using updateWeightsW_eq by blast
  show ?thesis
    using True by (simp add: driftW_def drift_def s updateContextW_eq touches_def)
qed

lemma pipelineLoopW_sim:
  "fst (pipelineLoopW p k g c prev stps w) =
     (fst (fst (pipelineLoop p k (g, contextCells w c) prev stps)),
      snd (pipelineLoop p k (g, contextCells w c) prev stps)) \<and>
   contextCells (snd (pipelineLoopW p k g c prev stps w)) c =
     snd (fst (pipelineLoop p k (g, contextCells w c) prev stps)) \<and>
   touches c w (snd (pipelineLoopW p k g c prev stps w))"
proof (induction "recursionDepth p - k" arbitrary: k g prev stps w)
  case 0
  then have "\<not> k < recursionDepth p" by simp
  then show ?case
    by (subst (1 2 3) pipelineLoopW.simps, subst (1 2 3) pipelineLoop.simps)
       (simp add: touches_refl)
next
  case (Suc n)
  then have lt: "k < recursionDepth p" and n: "n = recursionDepth p - Suc k"
    by simp_all
  let ?scores = "activationScores g (contextCells w c) p"
  let ?gw = "driftW p k ?scores g c w"
  let ?st = "drift p k ?scores (g, contextCells w c)"
  note d = driftW_sim [of p k ?scores g c w]
  have st: "?st = (fst ?gw, contextCells (snd ?gw) c)"
    using d by (simp add: prod_eq_iff)
  have unfoldW: "pipelineLoopW p k g c prev stps w =
        pipelineLoopW p (Suc k) (fst ?gw) c (Some ?scores)
          (stps @ [stepLog p k g ?scores prev]) (snd ?gw)"
    using lt by (subst pipelineLoopW.simps) (simp add: Let_def)
  have unfoldP: "pipelineLoop p k (g, contextCells w c) prev stps =
        pipelineLoop p (Suc k) (fst ?gw, contextCells (snd ?gw) c) (Some ?scores)
          (stps @ [stepLog p k g ?scores prev])"
    using lt by (subst pipelineLoop.simps) (simp add: Let_def st)
  note ih = Suc.hyps(1) [OF n, of "fst ?gw" "Some ?scores" "stps @ [stepLog p k g ?scores prev]"
      "snd ?gw"]
  show ?case
    unfolding unfoldW unfoldP
    using ih d touches_trans by blast
qed

lemma runPipelineW_refines:
  "runlogW (fst (runPipelineW p w)) = runlog (runPipeline p) \<and>
   graphW (fst (runPipelineW p w)) = graph (runPipeline p) \<and>
   contextRef (fst (runPipelineW p w)) = contextCount w \<and>
   contextCells (snd (runPipelineW p w)) (contextCount w) = contextOut (runPipeline p) \<and>
   contextCount (snd (runPipelineW p w)) = Suc (contextCount w) \<and>
   extends w (snd (runPipelineW p w))"
proof -
  let ?c = "contextCount w"
  obtain s where gen: "generateGraphW (seed p) p w =
     ((fst (generateGraph (seed p) p), ?c),
      setCtx ?c (snd (generateGraph (seed p) p))
        (setRng (rngCount w) s
          (w\<lparr>rngCount := Suc (rngCount w), contextCount := Suc (contextCount w)\<rparr>)))"
    using generateGraphW_eq by blast
  let ?w1 = "setCtx ?c (snd (generateGraph (seed p) p))
        (setRng (rngCount w) s
          (w\<lparr>rngCount := Suc (rngCount w), contextCount := Suc (contextCount w)\<rparr>))"
  let ?g0 = "fst (generateGraph (seed p) p)"
  let ?LW = "pipelineLoopW p 0 ?g0 ?c None [] ?w1"
  let ?L = "pipelineLoop p 0 (generateGraph (seed p) p) None []"
  have cell: "contextCells ?w1 ?c = snd (generateGraph (seed p) p)"
    by simp
  note sim = pipelineLoopW_sim [of p 0 ?g0 ?c None "[]" ?w1, unfolded cell prod.collapse]
  have out: "runPipelineW p w =
      (\<lparr>graphW = fst (fst ?LW), contextRef = ?c,
        runlogW = \<lparr>model = ''PUTMAN Pipeline Visual Simulator'', createdAt = ''deterministic'',
                   paramsR = p, steps = snd (fst ?LW)\<rparr>\<rparr>, snd ?LW)"
    by (simp add: runPipelineW_def gen case_prod_beta)
  have pure: "runPipeline p =
      \<lparr>graph = fst (fst ?L), contextOut = snd (fst ?L),
       runlog = \<lparr>model = ''PUTMAN Pipeline Visual Simulator'', createdAt = ''deterministic'',
                 paramsR = p, steps = snd ?L\<rparr>\<rparr>"
    by (simp add: runPipeline_def case_prod_beta)
  have t: "touches ?c ?w1 (snd ?LW)"
    using sim by blast
  have ext: "extends w (snd ?LW)"
    using t by (auto simp: touches_def extends_def)
  have cnt: "contextCount (snd ?LW) = Suc ?c"
    using t by (simp add: touches_def)
  show ?thesis
    unfolding out pure using sim ext cnt by simp
qed

lemma runPipeline_runlog_fields:
  "createdAt (runlog (runPipeline p)) = ''deterministic'' \<and>
   model (runlog (runPipeline p)) = ''PUTMAN Pipeline Visual Simulator'' \<and>
   paramsR (runlog (runPipeline p)) = p"
  by (simp add: runPipeline_def case_prod_beta)

lemma runPipelineW_runlog: "runlogW (fst (runPipelineW p w)) = runlog (runPipeline p)"
  using runPipelineW_refines [of p w] by simp

lemma runPipelineW_context:
  "contextCells (snd (runPipelineW p w)) (contextRef (fst (runPipelineW p w))) =
     contextOut (runPipeline p)"
  using runPipelineW_refines [of p w] by simp

lemma runPipelineW_keeps_context:
  "contextCells (snd (runPipelineW q (snd (runPipelineW p w)))) (contextRef (fst (runPipelineW p w))) =
     contextCells (snd (runPipelineW p w)) (contextRef (fst (runPipelineW p w)))"
proof -
  let ?w' = "snd (runPipelineW p w)"
  have "contextRef (fst (runPipelineW p w)) < contextCount ?w'"
    using runPipelineW_refines [of p w] by simp
  moreover have "extends ?w' (snd (runPipelineW q ?w'))"
    using runPipelineW_refines [of q ?w'] by simp
  ultimately show ?thesis
    by (simp add: extends_def)
qed

text \<open>
  C1. Two invocations of \<open>runPipeline\<close> with the same parameter record return the same
  RunLog, and \<open>runlogHash\<close> returns for both the same string of 8 lowercase hexadecimal
  digits. This holds whatever the store is when each invocation starts, so also for the
  second of two consecutive invocations, which starts in the store the first one left: a
  call reads no closure variable or context object that existed before it, and changes
  none of them, so the context returned by the first call is untouched by the second. The
  RunLog is the one of the store-free reading of the engine: its steps are the records of
  the iterations, its timestamp is the constant \<open>deterministic\<close>.
\<close>

theorem runPipeline_deterministic:
  "p = q \<longrightarrow>
     runlogW (fst (runPipelineW p wa)) = runlogW (fst (runPipelineW q wb)) \<and>
     graphW (fst (runPipelineW p wa)) = graphW (fst (runPipelineW q wb)) \<and>
     contextCells (snd (runPipelineW p wa)) (contextRef (fst (runPipelineW p wa))) =
       contextCells (snd (runPipelineW q wb)) (contextRef (fst (runPipelineW q wb))) \<and>
     runlogW (fst (runPipelineW q (snd (runPipelineW p wa)))) =
       runlogW (fst (runPipelineW p wa)) \<and>
     contextCells (snd (runPipelineW q (snd (runPipelineW p wa))))
         (contextRef (fst (runPipelineW p wa))) =
       contextCells (snd (runPipelineW p wa)) (contextRef (fst (runPipelineW p wa))) \<and>
     extends wa (snd (runPipelineW p wa)) \<and>
     runlogW (fst (runPipelineW p wa)) = runlog (runPipeline p) \<and>
     runlog (runPipeline p) = runlog (runPipeline q) \<and>
     runlogHash js (RunLog_value (runlogW (fst (runPipelineW p wa)))) =
       runlogHash js (RunLog_value (runlogW (fst (runPipelineW q wb)))) \<and>
     length (runlogHash js (RunLog_value (runlogW (fst (runPipelineW p wa))))) = 8 \<and>
     list_all isHexLower (runlogHash js (RunLog_value (runlogW (fst (runPipelineW p wa))))) \<and>
     createdAt (runlogW (fst (runPipelineW p wa))) = ''deterministic'' \<and>
     paramsR (runlogW (fst (runPipelineW p wa))) = p \<and>
     steps (runlogW (fst (runPipelineW p wa))) = map (stepLogAt p) [0..<recursionDepth p]"
proof (intro impI conjI)
  assume pq: "p = q"
  show "runlogW (fst (runPipelineW p wa)) = runlogW (fst (runPipelineW q wb))"
    by (simp add: runPipelineW_runlog pq)
  show "graphW (fst (runPipelineW p wa)) = graphW (fst (runPipelineW q wb))"
    using runPipelineW_refines [of p wa] runPipelineW_refines [of q wb] by (simp add: pq)
  show "contextCells (snd (runPipelineW p wa)) (contextRef (fst (runPipelineW p wa))) =
       contextCells (snd (runPipelineW q wb)) (contextRef (fst (runPipelineW q wb)))"
    by (simp add: runPipelineW_context pq)
  show "runlogW (fst (runPipelineW q (snd (runPipelineW p wa)))) =
       runlogW (fst (runPipelineW p wa))"
    by (simp add: runPipelineW_runlog pq)
  show "contextCells (snd (runPipelineW q (snd (runPipelineW p wa))))
         (contextRef (fst (runPipelineW p wa))) =
       contextCells (snd (runPipelineW p wa)) (contextRef (fst (runPipelineW p wa)))"
    by (rule runPipelineW_keeps_context)
  show "extends wa (snd (runPipelineW p wa))"
    using runPipelineW_refines [of p wa] by simp
  show "runlogW (fst (runPipelineW p wa)) = runlog (runPipeline p)"
    by (rule runPipelineW_runlog)
  show "runlog (runPipeline p) = runlog (runPipeline q)"
    by (simp add: pq)
  show "runlogHash js (RunLog_value (runlogW (fst (runPipelineW p wa)))) =
       runlogHash js (RunLog_value (runlogW (fst (runPipelineW q wb))))"
    by (simp add: runPipelineW_runlog pq)
  show "length (runlogHash js (RunLog_value (runlogW (fst (runPipelineW p wa))))) = 8"
    and "list_all isHexLower (runlogHash js (RunLog_value (runlogW (fst (runPipelineW p wa)))))"
    using runlogHash_format [of js "RunLog_value (runlogW (fst (runPipelineW p wa)))"]
    by simp_all
  show "createdAt (runlogW (fst (runPipelineW p wa))) = ''deterministic''"
    and "paramsR (runlogW (fst (runPipelineW p wa))) = p"
    using runPipeline_runlog_fields [of p] by (simp_all add: runPipelineW_runlog)
  show "steps (runlogW (fst (runPipelineW p wa))) = map (stepLogAt p) [0..<recursionDepth p]"
    by (simp add: runPipelineW_runlog runPipeline_steps)
qed

theorem runPipeline_deterministic_witness:
  "testParams = testParams \<and>
   runlogW (fst (runPipelineW testParams emptyWorld)) =
     runlogW (fst (runPipelineW testParams usedWorld)) \<and>
   runlogW (fst (runPipelineW testParams (snd (runPipelineW testParams emptyWorld)))) =
     runlogW (fst (runPipelineW testParams emptyWorld)) \<and>
   runlogHash (\<lambda>v. ''0'') (RunLog_value (runlogW (fst (runPipelineW testParams emptyWorld)))) =
     runlogHash (\<lambda>v. ''0'') (RunLog_value (runlogW (fst (runPipelineW testParams usedWorld)))) \<and>
   length (runlogHash (\<lambda>v. ''0'')
     (RunLog_value (runlogW (fst (runPipelineW testParams emptyWorld))))) = 8 \<and>
   length (steps (runlogW (fst (runPipelineW testParams emptyWorld)))) = 6 \<and>
   rngCells (snd (runPipelineW testParams usedWorld)) 4 = rngCells usedWorld 4 \<and>
   contextCells (snd (runPipelineW testParams usedWorld)) 2 = contextCells usedWorld 2"
proof -
  note t = runPipeline_deterministic [where p = testParams and q = testParams
      and wa = emptyWorld and wb = usedWorld and js = "\<lambda>v. ''0''", THEN mp, OF refl]
  note u = runPipeline_deterministic [where p = testParams and q = testParams
      and wa = usedWorld and wb = usedWorld and js = "\<lambda>v. ''0''", THEN mp, OF refl]
  have a: "runlogW (fst (runPipelineW testParams emptyWorld)) =
     runlogW (fst (runPipelineW testParams usedWorld))"
    by (rule t [THEN conjunct1])
  have b: "runlogW (fst (runPipelineW testParams (snd (runPipelineW testParams emptyWorld)))) =
     runlogW (fst (runPipelineW testParams emptyWorld))"
    by (rule t [THEN conjunct2, THEN conjunct2, THEN conjunct2, THEN conjunct1])
  have c: "runlogHash (\<lambda>v. ''0'') (RunLog_value (runlogW (fst (runPipelineW testParams emptyWorld)))) =
     runlogHash (\<lambda>v. ''0'') (RunLog_value (runlogW (fst (runPipelineW testParams usedWorld))))"
    by (rule t [THEN conjunct2, THEN conjunct2, THEN conjunct2, THEN conjunct2, THEN conjunct2,
          THEN conjunct2, THEN conjunct2, THEN conjunct2, THEN conjunct1])
  have d: "length (runlogHash (\<lambda>v. ''0'')
     (RunLog_value (runlogW (fst (runPipelineW testParams emptyWorld))))) = 8"
    by (rule t [THEN conjunct2, THEN conjunct2, THEN conjunct2, THEN conjunct2, THEN conjunct2,
          THEN conjunct2, THEN conjunct2, THEN conjunct2, THEN conjunct2, THEN conjunct1])
  have "steps (runlogW (fst (runPipelineW testParams emptyWorld))) =
        map (stepLogAt testParams) [0..<recursionDepth testParams]"
    by (rule t [THEN conjunct2, THEN conjunct2, THEN conjunct2, THEN conjunct2, THEN conjunct2,
          THEN conjunct2, THEN conjunct2, THEN conjunct2, THEN conjunct2, THEN conjunct2,
          THEN conjunct2, THEN conjunct2, THEN conjunct2])
  then have e: "length (steps (runlogW (fst (runPipelineW testParams emptyWorld)))) = 6"
    by (simp add: testParams_def)
  have ext: "extends usedWorld (snd (runPipelineW testParams usedWorld))"
    by (rule u [THEN conjunct2, THEN conjunct2, THEN conjunct2, THEN conjunct2, THEN conjunct2,
          THEN conjunct1])
  have f: "rngCells (snd (runPipelineW testParams usedWorld)) 4 = rngCells usedWorld 4"
    and g: "contextCells (snd (runPipelineW testParams usedWorld)) 2 = contextCells usedWorld 2"
    using ext by (simp_all add: extends_def usedWorld_def)
  show ?thesis
    by (intro conjI refl a b c d e f g)
qed

end
